theory Spec2Isabelle
  imports Complex_Main "HOL-Library.Sublist"
begin

section \<open>Strings\<close>

text \<open>
  Python \<open>str\<close> values are modelled as \<^typ>\<open>string\<close>. A character outside ASCII is
  written as its UTF-8 bytes; UTF-8 is self-synchronising, so substring, prefix and suffix
  tests on the encoded strings agree with the tests on code points.
\<close>

text \<open>\<open>pat in s\<close> for two strings: \<open>pat\<close> occurs as a contiguous run of \<open>s\<close>.\<close>

fun str_in :: "string \<Rightarrow> string \<Rightarrow> bool" where
  "str_in pat [] = (pat = [])"
| "str_in pat (c # cs) = (prefix pat (c # cs) \<or> str_in pat cs)"

text \<open>\<open>s.startswith(p)\<close> and \<open>s.endswith((p1, ..., pn))\<close>.\<close>

definition startswith :: "string \<Rightarrow> string \<Rightarrow> bool" where
  "startswith s p = prefix p s"

definition endswith :: "string \<Rightarrow> string list \<Rightarrow> bool" where
  "endswith s ps = list_ex (\<lambda>p. suffix p s) ps"

text \<open>
  \<open>s.lower()\<close> on the ASCII letters. Python also maps cased letters outside ASCII; the
  only use that steers control flow is the test \<open>"vcloud" not in page.url.lower()\<close>, and
  no character outside ASCII lower-cases to one of the letters of \<open>vcloud\<close>.
\<close>

definition lower_char :: "char \<Rightarrow> char" where
  "lower_char c =
    (let n = (of_char c :: nat) in if 65 \<le> n \<and> n \<le> 90 then char_of (n + 32) else c)"

definition lower :: "string \<Rightarrow> string" where
  "lower s = map lower_char s"

text \<open>\<open>s.replace(a, b)\<close> for one-character \<open>a\<close>.\<close>

definition replace_char :: "char \<Rightarrow> string \<Rightarrow> string \<Rightarrow> string" where
  "replace_char a b s = concat (map (\<lambda>c. if c = a then b else [c]) s)"

text \<open>Truthiness of an \<open>Optional[str]\<close>: neither \<open>None\<close> nor the empty string.\<close>

fun truthy :: "string option \<Rightarrow> bool" where
  "truthy None = False"
| "truthy (Some s) = (s \<noteq> [])"

section \<open>Ad blocking (scraper.py, lines 12-44 and 75-90)\<close>

definition AD_DOMAINS_PATTERNS :: "string list" where
  "AD_DOMAINS_PATTERNS =
    [''doubleclick.net'', ''googleadservices.com'', ''googlesyndication.com'',
     ''adservice.google.com'', ''.cloudfront.net/ads'', ''adform.net'', ''adsrvr.org'',
     ''popads.net'', ''yllix.com'', ''propellerads.com'', ''adsterra.com'',
     ''onclickads.net'',
     [CHR 0x20, CHR 0xE0, CHR 0xA4, CHR 0x9F, CHR 0xE0, CHR 0xA5, CHR 0x8D,
      CHR 0xE0, CHR 0xA4, CHR 0xB0, CHR 0xE0, CHR 0xA5, CHR 0x88,
      CHR 0xE0, CHR 0xA4, CHR 0xAB, CHR 0xE0, CHR 0xA4, CHR 0xBF,
      CHR 0xE0, CHR 0xA4, CHR 0x95] @ ''junky.com'',
     ''exoclick.com'', ''ero-advertising.com'',
     ''juicyads.com'', ''plugrush.com'', ''bongacams.com'', ''chaturbate.com'']"

text \<open>\<open>any(pattern in url for pattern in AD_DOMAINS_PATTERNS)\<close>\<close>

definition matches_ad_pattern :: "string \<Rightarrow> bool" where
  "matches_ad_pattern u = list_ex (\<lambda>pattern. str_in pattern u) AD_DOMAINS_PATTERNS"

text \<open>
  The exceptions of the model are the subclasses of \<open>Exception\<close>: Playwright's timeout
  and everything else. (\<open>BaseException\<close>s such as task cancellation are outside the model.)
\<close>

datatype exn = PlaywrightTimeoutError | OtherException

text \<open>
  A route as the handler sees it: the request's URL and resource type, and what
  \<open>route.abort()\<close> and \<open>route.continue_()\<close> would do if called (\<open>None\<close>: return,
  \<open>Some e\<close>: raise \<open>e\<close>, for instance because the request was already handled).
\<close>

record route =
  url :: string
  resource_type :: string
  abort_outcome :: "exn option"
  continue_outcome :: "exn option"

datatype route_call = RouteAbort | RouteContinue

text \<open>
  \<open>block_ads_route\<close> returns the calls it made on the route, and \<open>Inr ()\<close> when it
  returns normally, \<open>Inl e\<close> when it lets \<open>e\<close> escape.
\<close>

definition block_ads_route :: "route \<Rightarrow> route_call list \<times> (exn + unit)" where
  "block_ads_route r =
    (if resource_type r \<in> set [''image'', ''script'', ''iframe'', ''media'', ''websocket'']
        \<and> matches_ad_pattern (url r)
     then (case abort_outcome r of
             None \<Rightarrow> ([RouteAbort], Inr ())
           | Some e \<Rightarrow> ([RouteAbort], Inr ()))
     else (case continue_outcome r of
             None \<Rightarrow> ([RouteContinue], Inr ())
           | Some e \<Rightarrow> ([RouteContinue], Inr ())))"

text \<open>A page handed to the popup listener: its URL and what \<open>close()\<close> would do.\<close>

record popup_page =
  popup_url :: string
  close_outcome :: "exn option"

datatype page_call = PageClose

definition handle_popup :: "popup_page \<Rightarrow> page_call list \<times> (exn + unit)" where
  "handle_popup p =
    (if matches_ad_pattern (popup_url p)
     then (case close_outcome p of
             None \<Rightarrow> ([PageClose], Inr ())
           | Some e \<Rightarrow> ([PageClose], Inr ()))
     else ([], Inr ()))"

section \<open>The user store (data_manager.py)\<close>

text \<open>
  \<open>user_search_data\<close> is a dict from chat id to a record with a timestamp and a dict
  of data. A Python dict keeps insertion order and has one entry per key: an association
  list, where a write to an existing key keeps its place and a new key goes to the end.
  \<open>time.time()\<close> is passed in as \<open>now\<close>; timestamps are floats in the source and
  real numbers here.
\<close>

record 'v user_record =
  timestamp :: real
  data :: "(string \<times> 'v) list"

type_synonym 'v store = "(int \<times> 'v user_record) list"

definition DATA_EXPIRY_SECONDS :: real where
  "DATA_EXPIRY_SECONDS = 7200"

text \<open>\<open>d[k] = v\<close> and \<open>del d[k]\<close> on such a dict.\<close>

fun dict_set :: "'k \<Rightarrow> 'a \<Rightarrow> ('k \<times> 'a) list \<Rightarrow> ('k \<times> 'a) list" where
  "dict_set k v [] = [(k, v)]"
| "dict_set k v ((k', v') # d) = (if k' = k then (k, v) # d else (k', v') # dict_set k v d)"

fun dict_del :: "'k \<Rightarrow> ('k \<times> 'a) list \<Rightarrow> ('k \<times> 'a) list" where
  "dict_del k [] = []"
| "dict_del k ((k', v') # d) = (if k' = k then d else (k', v') # dict_del k d)"

definition store_user_data :: "real \<Rightarrow> int \<Rightarrow> string \<Rightarrow> 'v \<Rightarrow> 'v store \<Rightarrow> 'v store" where
  "store_user_data now chat_id key v s =
    (let s1 = (case map_of s chat_id of
                 None \<Rightarrow> dict_set chat_id \<lparr>timestamp = now, data = []\<rparr> s
               | Some r \<Rightarrow> dict_set chat_id (r\<lparr>timestamp := now\<rparr>) s)
     in (case map_of s1 chat_id of
           None \<Rightarrow> s1
         | Some r \<Rightarrow> dict_set chat_id (r\<lparr>data := dict_set key v (data r)\<rparr>) s1))"

definition get_user_data :: "int \<Rightarrow> string \<Rightarrow> 'v store \<Rightarrow> 'v option" where
  "get_user_data chat_id key s =
    (case map_of s chat_id of None \<Rightarrow> None | Some r \<Rightarrow> map_of (data r) key)"

definition clear_user_data :: "int \<Rightarrow> 'v store \<Rightarrow> 'v store" where
  "clear_user_data chat_id s =
    (case map_of s chat_id of None \<Rightarrow> s | Some r \<Rightarrow> dict_del chat_id s)"

definition expired_users :: "real \<Rightarrow> 'v store \<Rightarrow> int list" where
  "expired_users current_time s =
    map fst (filter (\<lambda>(chat_id, record). current_time - timestamp record > DATA_EXPIRY_SECONDS) s)"

text \<open>The deletion loop: \<open>if chat_id in user_search_data: del user_search_data[chat_id]\<close>.\<close>

fun delete_users :: "int list \<Rightarrow> 'v store \<Rightarrow> 'v store" where
  "delete_users [] s = s"
| "delete_users (chat_id # rest) s =
    delete_users rest (case map_of s chat_id of None \<Rightarrow> s | Some r \<Rightarrow> dict_del chat_id s)"

definition cleanup_expired_data :: "real \<Rightarrow> 'v store \<Rightarrow> 'v store" where
  "cleanup_expired_data current_time s = delete_users (expired_users current_time s) s"

text \<open>The dict invariant: one entry per key.\<close>

definition wf_store :: "'v store \<Rightarrow> bool" where
  "wf_store s = distinct (map fst s)"

section \<open>The browser as an environment (scraper.py)\<close>

text \<open>
  The scraper drives a browser through Playwright. Every call it makes is an event of a
  trace, and what the call does is decided by the world: whether it raises, and the value
  it returns. The world is asked by position, the number of events so far, so it may
  answer the same call differently each time. Handles of Playwright objects are the
  positions at which they were created.
\<close>

type_synonym handle = nat

datatype level = DEBUG | INFO | WARNING | ERROR

text \<open>\<open>re.compile(p, re.I)\<close> is \<open>Pattern p\<close>; a plain string is \<open>Literal\<close>.\<close>

datatype server_identifier = Literal string | Pattern string

datatype locator =
    SearchBar
  | SearchButton
  | ServerElement server_identifier
  | VideoElement
  | DownloadButton

datatype call =
    PwStart
  | PwStop handle
  | Launch handle
  | NewContext handle
  | Route handle
  | OnPage handle
  | NewPage handle
  | ContextClose handle
  | BrowserClose handle
  | Goto handle string
  | WaitForTimeout handle nat
  | WaitForLoadState handle
  | PageUrl handle
  | Fill handle locator string
  | QuerySelectorAll handle
  | InputIsVisible handle nat
  | InputFill handle nat string
  | PressEnter handle
  | Click handle locator
  | IsVisible handle locator
  | GetAttribute handle locator string
  | Count handle locator
  | ExpectPage handle
  | PageExit handle
  | ContextPages handle
  | BringToFront handle
  | Sleep nat
  | Log level string string

datatype outcome =
    Raised exn
  | Returned
  | RetHandle handle
  | RetBool bool
  | RetStr string
  | RetOpt "string option"
  | RetNat nat

type_synonym event = "call \<times> outcome"

record world =
  raises :: "nat \<Rightarrow> exn option"
  bool_at :: "nat \<Rightarrow> bool"
  str_at :: "nat \<Rightarrow> string"
  opt_at :: "nat \<Rightarrow> string option"
  nat_at :: "nat \<Rightarrow> nat"

text \<open>
  The frame of a running operation: its local variables \<open>playwright\<close>, \<open>browser\<close> and
  \<open>context\<close> (\<open>None\<close> until assigned), the variable it returns (\<open>source_sites\<close>,
  \<open>results\<close>, \<open>options\<close> or \<open>final_link\<close>), and the trace. An exception leaves the
  frame as it was when raised, so a handler and a \<open>finally\<close> block see the variables
  assigned so far.
\<close>

record 'r frame =
  playwright_var :: "handle option"
  browser_var :: "handle option"
  context_var :: "handle option"
  result_var :: 'r
  trace :: "event list"

type_synonym ('r, 'a) io = "'r frame \<Rightarrow> (exn + 'a) \<times> 'r frame"

definition entry :: "'r \<Rightarrow> 'r frame" where
  "entry r = \<lparr>playwright_var = None, browser_var = None, context_var = None,
              result_var = r, trace = []\<rparr>"

definition return_io :: "'a \<Rightarrow> ('r, 'a) io" where
  "return_io x = (\<lambda>s. (Inr x, s))"

definition raise_io :: "exn \<Rightarrow> ('r, 'a) io" where
  "raise_io e = (\<lambda>s. (Inl e, s))"

definition bind_io :: "('r, 'a) io \<Rightarrow> ('a \<Rightarrow> ('r, 'b) io) \<Rightarrow> ('r, 'b) io" where
  "bind_io m f = (\<lambda>s. case m s of (Inl e, s') \<Rightarrow> (Inl e, s') | (Inr x, s') \<Rightarrow> f x s')"

definition gets :: "('r frame \<Rightarrow> 'a) \<Rightarrow> ('r, 'a) io" where
  "gets f = (\<lambda>s. (Inr (f s), s))"

definition modify :: "('r frame \<Rightarrow> 'r frame) \<Rightarrow> ('r, unit) io" where
  "modify f = (\<lambda>s. (Inr (), f s))"

text \<open>\<open>try: m except Exception as e: h e\<close>\<close>

definition try_except :: "('r, 'a) io \<Rightarrow> (exn \<Rightarrow> ('r, 'a) io) \<Rightarrow> ('r, 'a) io" where
  "try_except m h = (\<lambda>s. case m s of (Inl e, s') \<Rightarrow> h e s' | (Inr x, s') \<Rightarrow> (Inr x, s'))"

text \<open>
  \<open>try: m finally: f\<close>, and \<open>async with\<close> whose exit is \<open>f\<close>: \<open>f\<close> runs on both
  paths; if it raises, its exception replaces the outcome of \<open>m\<close>.
\<close>

definition try_finally :: "('r, 'a) io \<Rightarrow> ('r, unit) io \<Rightarrow> ('r, 'a) io" where
  "try_finally m f = (\<lambda>s. case m s of (r, s') \<Rightarrow>
     (case f s' of (Inl e', s'') \<Rightarrow> (Inl e', s'') | (Inr u, s'') \<Rightarrow> (r, s'')))"

definition emit :: "call \<Rightarrow> outcome \<Rightarrow> 'r frame \<Rightarrow> 'r frame" where
  "emit c out s = s\<lparr>trace := trace s @ [(c, out)]\<rparr>"

text \<open>An awaited call: the world decides whether it raises and what it returns.\<close>

definition call_unit :: "world \<Rightarrow> call \<Rightarrow> ('r, unit) io" where
  "call_unit w c = (\<lambda>s. case raises w (length (trace s)) of
      Some e \<Rightarrow> (Inl e, emit c (Raised e) s)
    | None \<Rightarrow> (Inr (), emit c Returned s))"

definition call_handle :: "world \<Rightarrow> call \<Rightarrow> ('r, handle) io" where
  "call_handle w c = (\<lambda>s. case raises w (length (trace s)) of
      Some e \<Rightarrow> (Inl e, emit c (Raised e) s)
    | None \<Rightarrow> (Inr (length (trace s)), emit c (RetHandle (length (trace s))) s))"

definition call_bool :: "world \<Rightarrow> call \<Rightarrow> ('r, bool) io" where
  "call_bool w c = (\<lambda>s. case raises w (length (trace s)) of
      Some e \<Rightarrow> (Inl e, emit c (Raised e) s)
    | None \<Rightarrow> (Inr (bool_at w (length (trace s))), emit c (RetBool (bool_at w (length (trace s)))) s))"

definition call_opt :: "world \<Rightarrow> call \<Rightarrow> ('r, string option) io" where
  "call_opt w c = (\<lambda>s. case raises w (length (trace s)) of
      Some e \<Rightarrow> (Inl e, emit c (Raised e) s)
    | None \<Rightarrow> (Inr (opt_at w (length (trace s))), emit c (RetOpt (opt_at w (length (trace s)))) s))"

definition call_nat :: "world \<Rightarrow> call \<Rightarrow> ('r, nat) io" where
  "call_nat w c = (\<lambda>s. case raises w (length (trace s)) of
      Some e \<Rightarrow> (Inl e, emit c (Raised e) s)
    | None \<Rightarrow> (Inr (nat_at w (length (trace s))), emit c (RetNat (nat_at w (length (trace s)))) s))"

text \<open>
  Reads of the properties \<open>page.url\<close> and \<open>context.pages\<close>, logging and
  \<open>asyncio.sleep\<close> (in milliseconds) do not raise. The read of \<open>context.pages\<close>
  answers the test
  \<open>len(context.pages) > 1 and context.pages[-1] != page\<close>: \<open>Some\<close> of the last page
  when it holds.
\<close>

definition read_url :: "world \<Rightarrow> handle \<Rightarrow> ('r, string) io" where
  "read_url w p = (\<lambda>s. (Inr (str_at w (length (trace s))),
                         emit (PageUrl p) (RetStr (str_at w (length (trace s)))) s))"

definition read_new_page :: "world \<Rightarrow> handle \<Rightarrow> ('r, handle option) io" where
  "read_new_page w c = (\<lambda>s.
     if bool_at w (length (trace s))
     then (Inr (Some (length (trace s))), emit (ContextPages c) (RetHandle (length (trace s))) s)
     else (Inr None, emit (ContextPages c) Returned s))"

definition log :: "level \<Rightarrow> string \<Rightarrow> string \<Rightarrow> ('r, unit) io" where
  "log lvl msg arg = (\<lambda>s. (Inr (), emit (Log lvl msg arg) Returned s))"

definition sleep :: "nat \<Rightarrow> ('r, unit) io" where
  "sleep ms = (\<lambda>s. (Inr (), emit (Sleep ms) Returned s))"

subsection \<open>Sessions (lines 47-115)\<close>

text \<open>
  \<open>get_playwright_page\<close>. The context options are merged and handed to
  \<open>new_context\<close>; every caller passes none, and they steer nothing here.
\<close>

definition get_playwright_page ::
  "world \<Rightarrow> handle option \<Rightarrow> ('r, handle \<times> handle \<times> handle \<times> handle) io" where
  "get_playwright_page w playwright_instance =
     bind_io (case playwright_instance of
                None \<Rightarrow> call_handle w PwStart
              | Some pw \<Rightarrow> return_io pw) (\<lambda>pw_instance.
     bind_io (call_handle w (Launch pw_instance)) (\<lambda>browser.
     bind_io (call_handle w (NewContext browser)) (\<lambda>ctx.
     bind_io (call_unit w (Route ctx)) (\<lambda>_.
     bind_io (call_unit w (OnPage ctx)) (\<lambda>_.
     bind_io (call_handle w (NewPage ctx)) (\<lambda>page.
     return_io (pw_instance, browser, ctx, page)))))))"

text \<open>\<open>playwright, browser, context, page = await get_playwright_page(...)\<close>\<close>

definition acquire :: "world \<Rightarrow> handle option \<Rightarrow> ('r, handle \<times> handle) io" where
  "acquire w playwright_instance =
     bind_io (get_playwright_page w playwright_instance) (\<lambda>(pw, browser, ctx, page).
     bind_io (modify (\<lambda>s. s\<lparr>playwright_var := Some pw, browser_var := Some browser,
                              context_var := Some ctx\<rparr>)) (\<lambda>_.
     return_io (ctx, page)))"

definition close_playwright_resources ::
  "world \<Rightarrow> handle option \<Rightarrow> handle option \<Rightarrow> ('r, unit) io" where
  "close_playwright_resources w browser ctx =
     bind_io (case ctx of
                None \<Rightarrow> return_io ()
              | Some c \<Rightarrow> try_except (call_unit w (ContextClose c))
                                     (\<lambda>e. log ERROR ''Error closing context'' [])) (\<lambda>_.
     (case browser of
        None \<Rightarrow> return_io ()
      | Some b \<Rightarrow> try_except (call_unit w (BrowserClose b))
                             (\<lambda>e. log ERROR ''Error closing browser'' [])))"

text \<open>\<open>if browser: await close_playwright_resources(browser, context, ...)\<close>\<close>

definition close_if_open :: "world \<Rightarrow> ('r, unit) io" where
  "close_if_open w =
     bind_io (gets browser_var) (\<lambda>browser.
     if browser \<noteq> None
     then bind_io (gets context_var) (\<lambda>ctx. close_playwright_resources w browser ctx)
     else return_io ())"

text \<open>
  The two lines that end every operation: the one above, and
  \<open>if playwright and not browser: await playwright.stop()\<close>.
\<close>

definition release :: "world \<Rightarrow> ('r, unit) io" where
  "release w =
     bind_io (close_if_open w) (\<lambda>_.
     bind_io (gets playwright_var) (\<lambda>playwright.
     bind_io (gets browser_var) (\<lambda>browser.
     (case playwright of
        Some pw \<Rightarrow> if browser = None then call_unit w (PwStop pw) else return_io ()
      | None \<Rightarrow> return_io ()))))"

subsection \<open>Source discovery (lines 118-158)\<close>

definition get_movie_source_websites ::
  "world \<Rightarrow> string \<Rightarrow> (exn + string list) \<times> string list frame" where
  "get_movie_source_websites w vglist_url =
    (bind_io (log INFO ''Fetching source websites from'' vglist_url) (\<lambda>_.
     bind_io (try_finally
       (try_except
          (bind_io (acquire w None) (\<lambda>(ctx, page).
           bind_io (log WARNING ''Using DUMMY source websites'' []) (\<lambda>_.
           bind_io (sleep 100) (\<lambda>_.
           bind_io (modify (\<lambda>s. s\<lparr>result_var :=
                      [''https://dummy-movie-site-alpha.com'',
                       ''https://dummy-movie-site-beta.com'']\<rparr>)) (\<lambda>_.
           bind_io (gets result_var) (\<lambda>source_sites.
           if source_sites = [] then log WARNING ''No source sites found'' []
           else return_io ()))))))
          (\<lambda>e. case e of
                 PlaywrightTimeoutError \<Rightarrow> log ERROR ''Timeout error scraping'' vglist_url
               | OtherException \<Rightarrow> log ERROR ''Error scraping'' vglist_url))
       (release w)) (\<lambda>_.
     bind_io (log INFO ''Found source sites'' []) (\<lambda>_.
     gets result_var)))) (entry [])"

subsection \<open>Option discovery (lines 287-332)\<close>



subsection \<open>Site search (lines 161-284)\<close>

record search_result =
  title :: string
  poster_url :: string
  detail_page_url :: string
  source_site :: string

definition max_retries :: nat where
  "max_retries = 1"

text \<open>How the body of a loop ends: at its end, by \<open>continue\<close>, or by \<open>break\<close>.\<close>

datatype ctl = Proceed | Continue | Break

text \<open>
  The loop over \<open>common_search_inputs\<close> (lines 197-205); it returns \<open>filled\<close>.
  \<open>is_visible\<close> is outside the inner \<open>try\<close>, so what it raises leaves the loop.
\<close>

fun fill_inputs :: "world \<Rightarrow> handle \<Rightarrow> string \<Rightarrow> string \<Rightarrow> nat list \<Rightarrow> ('r, bool) io" where
  "fill_inputs w page site_url movie_name [] = return_io False"
| "fill_inputs w page site_url movie_name (s_input # rest) =
     bind_io (call_bool w (InputIsVisible page s_input)) (\<lambda>visible.
     if visible then
       bind_io (try_except
                  (bind_io (call_unit w (InputFill page s_input movie_name)) (\<lambda>_.
                   bind_io (log INFO ''Filled search using generic input on'' site_url) (\<lambda>_.
                   return_io Break)))
                  (\<lambda>e. return_io Continue)) (\<lambda>c.
       if c = Break then return_io True
       else fill_inputs w page site_url movie_name rest)
     else fill_inputs w page site_url movie_name rest)"

text \<open>Lines 190-208.\<close>

definition fill_search_bar :: "world \<Rightarrow> handle \<Rightarrow> string \<Rightarrow> string \<Rightarrow> ('r, unit) io" where
  "fill_search_bar w page site_url movie_name =
     try_except (call_unit w (Fill page SearchBar movie_name))
       (\<lambda>e. case e of
          PlaywrightTimeoutError \<Rightarrow>
            bind_io (log WARNING ''Timeout finding search bar on'' site_url) (\<lambda>_.
            bind_io (call_nat w (QuerySelectorAll page)) (\<lambda>n.
            bind_io (fill_inputs w page site_url movie_name [0..<n]) (\<lambda>filled.
            if \<not> filled then
              bind_io (log ERROR ''Could not find or fill search bar on'' site_url) (\<lambda>_.
              raise_io PlaywrightTimeoutError)
            else return_io ())))
        | OtherException \<Rightarrow> raise_io OtherException)"

text \<open>Lines 212-223.\<close>

definition submit_search :: "world \<Rightarrow> handle \<Rightarrow> string \<Rightarrow> ('r, unit) io" where
  "submit_search w page site_url =
     try_except
       (bind_io (call_unit w (PressEnter page)) (\<lambda>_.
        log INFO ''Pressed Enter for search on'' site_url))
       (\<lambda>e_key.
        bind_io (log WARNING ''Could not press Enter on'' site_url) (\<lambda>_.
        try_except
          (bind_io (call_unit w (Click page SearchButton)) (\<lambda>_.
           log INFO ''Clicked search button on'' site_url))
          (\<lambda>e. case e of
             PlaywrightTimeoutError \<Rightarrow>
               log ERROR ''Could not find or click search button on'' site_url
           | OtherException \<Rightarrow> raise_io OtherException)))"

text \<open>Lines 246-260; \<open>range(1)\<close> is the one index \<open>i = 0\<close>.\<close>

definition dummy_results :: "string \<Rightarrow> string \<Rightarrow> search_result list" where
  "dummy_results site_url movie_name =
    (if str_in ''dummy-movie-site-alpha'' site_url then
       [\<lparr>title = movie_name @ '' - Result 1 (Alpha Site)'',
         poster_url = ''https://via.placeholder.com/150x220.png?text=''
                        @ replace_char CHR '' '' ''+'' movie_name @ ''+1'',
         detail_page_url = site_url @ ''/movie/''
                        @ lower (replace_char CHR '' '' ''-'' movie_name) @ ''-details-1'',
         source_site = site_url\<rparr>]
     else if str_in ''dummy-movie-site-beta'' site_url then
       [\<lparr>title = movie_name @ '' - Result (Beta Site)'',
         poster_url = ''https://via.placeholder.com/150x220.png?text=''
                        @ replace_char CHR '' '' ''+'' movie_name @ ''+Beta'',
         detail_page_url = site_url @ ''/view/''
                        @ lower (replace_char CHR '' '' ''_'' movie_name),
         source_site = site_url\<rparr>]
     else [])"

text \<open>The redirect test of line 230, without the retry budget.\<close>

definition looks_redirected :: "string \<Rightarrow> string \<Rightarrow> bool" where
  "looks_redirected site_url current_url =
     (\<not> str_in site_url current_url \<and> \<not> startswith current_url site_url)"

text \<open>
  The end of the \<open>try\<close> block of one attempt (lines 228-264): the redirect test,
  and the scrape.
\<close>

definition after_submit ::
  "world \<Rightarrow> string \<Rightarrow> string \<Rightarrow> nat \<Rightarrow> handle \<Rightarrow> (search_result list, ctl) io" where
  "after_submit w site_url movie_name attempt page =
     bind_io (read_url w page) (\<lambda>current_url.
     if looks_redirected site_url current_url \<and> attempt < max_retries then
       bind_io (log WARNING ''Possible ad redirect on'' site_url) (\<lambda>_.
       bind_io (close_if_open w) (\<lambda>_.
       bind_io (modify (\<lambda>s. s\<lparr>browser_var := None, playwright_var := None\<rparr>)) (\<lambda>_.
       bind_io (sleep 2000) (\<lambda>_.
       return_io Continue))))
     else
       bind_io (log WARNING ''Using DUMMY search results for'' site_url) (\<lambda>_.
       bind_io (modify (\<lambda>s. s\<lparr>result_var :=
                  result_var s @ dummy_results site_url movie_name\<rparr>)) (\<lambda>_.
       bind_io (gets result_var) (\<lambda>results.
       if results \<noteq> [] then return_io Break else return_io Proceed))))"

text \<open>The \<open>try\<close> block of one attempt (lines 176-264).\<close>

definition search_try :: "world \<Rightarrow> string \<Rightarrow> string \<Rightarrow> nat \<Rightarrow> (search_result list, ctl) io" where
  "search_try w site_url movie_name attempt =
     bind_io (gets playwright_var) (\<lambda>playwright.
     bind_io (acquire w playwright) (\<lambda>(ctx, page).
     bind_io (call_unit w (Goto page site_url)) (\<lambda>_.
     bind_io (call_unit w (WaitForTimeout page 3000)) (\<lambda>_.
     bind_io (fill_search_bar w page site_url movie_name) (\<lambda>_.
     bind_io (submit_search w page site_url) (\<lambda>_.
     bind_io (call_unit w (WaitForLoadState page)) (\<lambda>_.
     bind_io (call_unit w (WaitForTimeout page 5000)) (\<lambda>_.
     after_submit w site_url movie_name attempt page))))))))"

text \<open>The handlers of the \<open>try\<close> block (lines 266-269).\<close>

definition search_except :: "string \<Rightarrow> exn \<Rightarrow> (search_result list, ctl) io" where
  "search_except site_url e =
     bind_io (case e of
                PlaywrightTimeoutError \<Rightarrow> log ERROR ''Timeout during search on'' site_url
              | OtherException \<Rightarrow> log ERROR ''Generic error searching on'' site_url) (\<lambda>_.
     return_io Proceed)"

text \<open>The \<open>for attempt in range(max_retries + 1)\<close> loop (lines 173-278).\<close>

fun search_loop :: "world \<Rightarrow> string \<Rightarrow> string \<Rightarrow> nat list \<Rightarrow> (search_result list, unit) io" where
  "search_loop w site_url movie_name [] = return_io ()"
| "search_loop w site_url movie_name (attempt # rest) =
     bind_io (try_except (search_try w site_url movie_name attempt)
                         (search_except site_url)) (\<lambda>c.
     case c of
       Continue \<Rightarrow> search_loop w site_url movie_name rest
     | Break \<Rightarrow> return_io ()
     | Proceed \<Rightarrow>
         bind_io (gets result_var) (\<lambda>results.
         if attempt < max_retries \<and> results = [] then
           bind_io (log INFO ''Retrying search on'' site_url) (\<lambda>_.
           bind_io (close_if_open w) (\<lambda>_.
           bind_io (modify (\<lambda>s. s\<lparr>browser_var := None, playwright_var := None\<rparr>)) (\<lambda>_.
           bind_io (sleep 3000) (\<lambda>_.
           search_loop w site_url movie_name rest))))
         else return_io ()))"

definition search_movie_on_site ::
  "world \<Rightarrow> string \<Rightarrow> string \<Rightarrow> (exn + search_result list) \<times> search_result list frame" where
  "search_movie_on_site w site_url movie_name =
    (bind_io (log INFO ''Searching on'' site_url) (\<lambda>_.
     bind_io (search_loop w site_url movie_name [0..<max_retries + 1]) (\<lambda>_.
     bind_io (release w) (\<lambda>_.
     bind_io (log INFO ''Found results on'' site_url) (\<lambda>_.
     gets result_var))))) (entry [])"

subsection \<open>Server resolution (lines 335-474)\<close>

record server_pref =
  name :: string
  identifiers :: "server_identifier list"

definition server_priority :: "server_pref list" where
  "server_priority =
    [\<lparr>name = ''Server One'',
      identifiers = [Literal ''Server One'', Literal ''VCloud Server 1'',
                     Literal ''server-one-button'', Pattern (''server'' @ [CHR 0x5C] @ ''s*1'')]\<rparr>,
     \<lparr>name = ''FSL Server'',
      identifiers = [Literal ''FSL Server'', Literal ''Fast Server Link'',
                     Literal ''fsl-server-link'', Pattern ''fsl'']\<rparr>,
     \<lparr>name = ''10 Gbps Server'',
      identifiers = [Literal ''10 Gbps Server'', Literal ''10Gbps Speed'',
                     Literal ''high-speed-server'', Pattern (''10'' @ [CHR 0x5C] @ ''s*gbps'')]\<rparr>]"

text \<open>
  \<open>x and (x.endswith(exts) or "googlevideo.com/videoplayback" in x)\<close> for an attribute
  value \<open>x\<close>, which may be \<open>None\<close>.
\<close>

fun is_direct :: "string list \<Rightarrow> string option \<Rightarrow> bool" where
  "is_direct exts None = False"
| "is_direct exts (Some x) =
     (x \<noteq> [] \<and> (endswith x exts \<or> str_in ''googlevideo.com/videoplayback'' x))"

text \<open>\<open>final_link = x\<close>, the log line that follows it, and \<open>break\<close>.\<close>

definition found :: "string \<Rightarrow> string option \<Rightarrow> (string option, ctl) io" where
  "found msg x =
     bind_io (modify (\<lambda>s. s\<lparr>result_var := x\<rparr>)) (\<lambda>_.
     bind_io (log INFO msg (case x of Some l \<Rightarrow> l | None \<Rightarrow> [])) (\<lambda>_.
     return_io Break))"

text \<open>\<open>if final_link: break\<close>\<close>

definition break_if_found :: "(string option, ctl) io" where
  "break_if_found =
     bind_io (gets result_var) (\<lambda>final_link.
     if truthy final_link then return_io Break else return_io Proceed)"

text \<open>
  Lines 417-447, on the page the click led to: the page URL, the video element, the
  download button, and the first \<open>if final_link: break\<close>.
\<close>

definition search_final_link :: "world \<Rightarrow> handle \<Rightarrow> (string option, ctl) io" where
  "search_final_link w current =
     bind_io (read_url w current) (\<lambda>current_url.
     if endswith current_url [''.mp4'', ''.mkv'', ''.avi'']
        \<or> str_in ''googlevideo.com/videoplayback'' current_url
     then found ''Page URL is direct link'' (Some current_url)
     else
       bind_io (call_nat w (Count current VideoElement)) (\<lambda>n.
       bind_io (if n > 0 then call_bool w (IsVisible current VideoElement)
                else return_io False) (\<lambda>video_visible.
       bind_io (if video_visible then
                  bind_io (call_opt w (GetAttribute current VideoElement ''src'')) (\<lambda>src.
                  if is_direct [''.mp4'', ''.mkv''] src
                  then found ''Found video src link'' src
                  else return_io Proceed)
                else return_io Proceed) (\<lambda>c.
       if c = Break then return_io Break
       else
         bind_io (call_nat w (Count current DownloadButton)) (\<lambda>m.
         bind_io (if m > 0 then call_bool w (IsVisible current DownloadButton)
                  else return_io False) (\<lambda>button_visible.
         bind_io (if button_visible then
                    bind_io (call_opt w (GetAttribute current DownloadButton ''href'')) (\<lambda>href.
                    if is_direct [''.mp4'', ''.mkv''] href
                    then found ''Found direct download button link'' href
                    else return_io Proceed)
                  else return_io Proceed) (\<lambda>c'.
         if c' = Break then return_io Break
         else break_if_found)))))))"

text \<open>
  Lines 388-415: the element is visible. \<open>async with\<close> leaves through the exit of its
  manager on both paths: the wait of \<open>context.expect_page\<close>, or the exit of \<open>page\<close>.
\<close>

definition use_element ::
  "world \<Rightarrow> handle \<Rightarrow> handle \<Rightarrow> string \<Rightarrow> server_identifier \<Rightarrow> (string option, ctl) io" where
  "use_element w page ctx server_name ident =
     bind_io (log INFO ''Found element for'' server_name) (\<lambda>_.
     bind_io (call_opt w (GetAttribute page (ServerElement ident) ''href'')) (\<lambda>href.
     if is_direct [''.mp4'', ''.mkv'', ''.avi'', ''.webm''] href
     then found ''Found direct link from attribute'' href
     else
       bind_io (log INFO ''Clicking element for'' server_name) (\<lambda>_.
       bind_io (read_url w page) (\<lambda>page_url.
       bind_io (try_finally (call_unit w (Click page (ServerElement ident)))
                  (if \<not> str_in ''vcloud'' (lower page_url)
                   then call_unit w (ExpectPage ctx)
                   else call_unit w (PageExit page))) (\<lambda>_.
       bind_io (read_new_page w ctx) (\<lambda>new_page.
       bind_io (case new_page of
                  Some np \<Rightarrow>
                    bind_io (call_unit w (BringToFront np)) (\<lambda>_.
                    bind_io (log INFO ''Switched to new page'' []) (\<lambda>_.
                    return_io np))
                | None \<Rightarrow> return_io page) (\<lambda>current_page_for_link_search.
       bind_io (call_unit w (WaitForLoadState current_page_for_link_search)) (\<lambda>_.
       bind_io (call_unit w (WaitForTimeout current_page_for_link_search 5000)) (\<lambda>_.
       search_final_link w current_page_for_link_search)))))))))"

text \<open>The body of the loop over the identifiers of one server (lines 372-452).\<close>

definition try_identifier ::
  "world \<Rightarrow> handle \<Rightarrow> handle \<Rightarrow> string \<Rightarrow> server_identifier \<Rightarrow> (string option, ctl) io" where
  "try_identifier w page ctx server_name ident =
     try_except
       (bind_io (call_bool w (IsVisible page (ServerElement ident))) (\<lambda>visible.
        bind_io (if visible then use_element w page ctx server_name ident
                 else return_io Proceed) (\<lambda>c.
        if c = Break then return_io Break else break_if_found)))
       (\<lambda>e. case e of
          PlaywrightTimeoutError \<Rightarrow>
            bind_io (log DEBUG ''Timeout finding/interacting with'' server_name) (\<lambda>_.
            return_io Proceed)
        | OtherException \<Rightarrow>
            bind_io (log WARNING ''Could not find/interact with'' server_name) (\<lambda>_.
            return_io Proceed))"

fun for_identifiers ::
  "world \<Rightarrow> handle \<Rightarrow> handle \<Rightarrow> string \<Rightarrow> server_identifier list \<Rightarrow> (string option, unit) io" where
  "for_identifiers w page ctx server_name [] = return_io ()"
| "for_identifiers w page ctx server_name (ident # rest) =
     bind_io (try_identifier w page ctx server_name ident) (\<lambda>c.
     if c = Break then return_io ()
     else for_identifiers w page ctx server_name rest)"

text \<open>The loop over \<open>server_priority\<close> (lines 369-453).\<close>

fun for_servers ::
  "world \<Rightarrow> handle \<Rightarrow> handle \<Rightarrow> server_pref list \<Rightarrow> (string option, unit) io" where
  "for_servers w page ctx [] = return_io ()"
| "for_servers w page ctx (pref # rest) =
     bind_io (log DEBUG ''Trying server'' (name pref)) (\<lambda>_.
     bind_io (for_identifiers w page ctx (name pref) (identifiers pref)) (\<lambda>_.
     bind_io break_if_found (\<lambda>c.
     if c = Break then return_io ()
     else for_servers w page ctx rest)))"

definition get_final_vcloud_download_link ::
  "world \<Rightarrow> string \<Rightarrow> string \<Rightarrow> (exn + string option) \<times> string option frame" where
  "get_final_vcloud_download_link w trigger_url site =
    (bind_io (log INFO ''Getting final VCloud link from'' trigger_url) (\<lambda>_.
     bind_io (try_finally
       (try_except
          (bind_io (acquire w None) (\<lambda>(ctx, page).
           bind_io (call_unit w (Goto page trigger_url)) (\<lambda>_.
           bind_io (call_unit w (WaitForTimeout page 7000)) (\<lambda>_.
           bind_io (log WARNING ''Using DUMMY VCloud link logic for'' trigger_url) (\<lambda>_.
           bind_io (for_servers w page ctx server_priority) (\<lambda>_.
           bind_io (gets result_var) (\<lambda>final_link.
           if \<not> truthy final_link
              \<and> (str_in ''dummy-movie-site'' site \<or> str_in ''example.com'' site)
           then
             bind_io (sleep 100) (\<lambda>_.
             bind_io (modify (\<lambda>s. s\<lparr>result_var :=
                        Some (trigger_url @ ''/final_vcloud_link_server1_dummy.mp4'')\<rparr>)) (\<lambda>_.
             log WARNING ''Using DUMMY final link''
                 (trigger_url @ ''/final_vcloud_link_server1_dummy.mp4'')))
           else return_io ())))))))
          (\<lambda>e. case e of
             PlaywrightTimeoutError \<Rightarrow>
               log ERROR ''Timeout getting final VCloud link from'' trigger_url
           | OtherException \<Rightarrow>
               log ERROR ''Error getting final VCloud link from'' trigger_url))
       (release w)) (\<lambda>_.
     bind_io (gets result_var) (\<lambda>final_link.
     bind_io (if truthy final_link
              then log INFO ''Final VCloud download link''
                     (case final_link of Some l \<Rightarrow> l | None \<Rightarrow> [])
              else log WARNING ''Could not retrieve a VCloud download link from'' trigger_url) (\<lambda>_.
     gets result_var))))) (entry None)"

section \<open>Reading traces\<close>

text \<open>The events that a property counts or looks for.\<close>

fun is_start :: "event \<Rightarrow> bool" where
  "is_start (PwStart, out) = True"
| "is_start ev = False"

fun is_launch :: "event \<Rightarrow> bool" where
  "is_launch (Launch pw, out) = True"
| "is_launch ev = False"

fun is_goto :: "event \<Rightarrow> bool" where
  "is_goto (Goto p u, out) = True"
| "is_goto ev = False"

fun is_browser_close :: "event \<Rightarrow> bool" where
  "is_browser_close (BrowserClose b, out) = True"
| "is_browser_close ev = False"

fun is_stop :: "event \<Rightarrow> bool" where
  "is_stop (PwStop pw, out) = True"
| "is_stop ev = False"

text \<open>The identifier an event examines: the visibility test of its server element.\<close>

fun examines :: "event \<Rightarrow> server_identifier option" where
  "examines (IsVisible p (ServerElement ident), out) = Some ident"
| "examines ev = None"

definition examined :: "event list \<Rightarrow> server_identifier list" where
  "examined tr = List.map_filter examines tr"

text \<open>The four log lines that follow an assignment of \<open>final_link\<close> in the search.\<close>

definition found_messages :: "string list" where
  "found_messages = [''Found direct link from attribute'', ''Page URL is direct link'',
                     ''Found video src link'', ''Found direct download button link'']"

fun yields :: "event \<Rightarrow> bool" where
  "yields (Log lvl msg arg, out) = (lvl = INFO \<and> msg \<in> set found_messages)"
| "yields ev = False"

definition all_identifiers :: "server_identifier list" where
  "all_identifiers = concat (map identifiers server_priority)"

text \<open>
  The calls that precede the server search in \<open>get_final_vcloud_download_link\<close>:
  the acquisition of the session, the navigation and the dwell of 7 seconds.
\<close>

fun is_prologue :: "event \<Rightarrow> bool" where
  "is_prologue (PwStart, out) = True"
| "is_prologue (Launch pw, out) = True"
| "is_prologue (NewContext b, out) = True"
| "is_prologue (Route c, out) = True"
| "is_prologue (OnPage c, out) = True"
| "is_prologue (NewPage c, out) = True"
| "is_prologue (Goto p u, out) = True"
| "is_prologue (WaitForTimeout p ms, out) = (ms = 7000)"
| "is_prologue ev = False"

text \<open>The events of \<open>close_playwright_resources\<close>.\<close>

fun closing :: "event \<Rightarrow> bool" where
  "closing (ContextClose c, out) = True"
| "closing (BrowserClose b, out) = True"
| "closing (Log lvl msg arg, out) =
     (lvl = ERROR \<and> msg \<in> set [''Error closing context'', ''Error closing browser''])"
| "closing ev = False"

fun raised :: "event \<Rightarrow> bool" where
  "raised (c, Raised e) = True"
| "raised ev = False"

text \<open>
  The end of a successful search: \<open>final_link\<close> is a non-empty string, and the log
  line of the find is the last event and the only one of its kind.
\<close>

definition found_end :: "string option \<Rightarrow> event list \<Rightarrow> bool" where
  "found_end fl tr =
     (\<exists>l msg. l \<noteq> [] \<and> fl = Some l \<and> tr \<noteq> [] \<and> msg \<in> set found_messages
        \<and> last tr = (Log INFO msg l, Returned)
        \<and> list_all (\<lambda>ev. \<not> yields ev) (butlast tr))"

text \<open>
  What a server search over the identifiers \<open>ids\<close> that ends with \<open>final_link = fl\<close>
  leaves in the trace: the identifiers are examined in the order of \<open>ids\<close>, all of
  them when no link is found, and no further one after a find.
\<close>

definition search_run :: "server_identifier list \<Rightarrow> string option \<Rightarrow> event list \<Rightarrow> bool" where
  "search_run ids fl tr =
     (list_all (\<lambda>ev. \<not> is_prologue ev) tr \<and>
      (if fl = None then examined tr = ids \<and> list_all (\<lambda>ev. \<not> yields ev) tr
       else prefix (examined tr) ids \<and> found_end fl tr))"

text \<open>
  An action that changes no variable of the frame and appends only events that satisfy
  \<open>P\<close>.
\<close>

definition only :: "(event \<Rightarrow> bool) \<Rightarrow> ('r, 'a) io \<Rightarrow> bool" where
  "only P m = (\<forall>s. \<exists>tr. snd (m s) = s\<lparr>trace := trace s @ tr\<rparr> \<and> list_all P tr)"

text \<open>The events inside the attempt on one identifier, after its visibility test.\<close>

definition plain :: "event \<Rightarrow> bool" where
  "plain ev = (examines ev = None \<and> \<not> is_prologue ev \<and> \<not> yields ev)"

text \<open>
  A piece of the attempt on one identifier, started with \<open>final_link = None\<close>: it
  examines no identifier; either it ends in \<open>break\<close> right after a find, or it finds
  nothing and leaves \<open>final_link\<close> as it was.
\<close>

definition inner :: "(string option, ctl) io \<Rightarrow> bool" where
  "inner m =
     (\<forall>s. result_var s = None \<longrightarrow>
        (\<exists>r fl tr. m s = (r, s\<lparr>result_var := fl, trace := trace s @ tr\<rparr>)
           \<and> examined tr = [] \<and> list_all (\<lambda>ev. \<not> is_prologue ev) tr
           \<and> (if r = Inr Break then found_end fl tr
                else fl = None \<and> list_all (\<lambda>ev. \<not> yields ev) tr)))"

text \<open>
  The events of one search attempt: those of the acquisition after the start of
  Playwright, and those between the navigation and the read of the page URL.
\<close>

fun acq_event :: "event \<Rightarrow> bool" where
  "acq_event (Launch pw, out) = True"
| "acq_event (NewContext b, out) = True"
| "acq_event (Route c, out) = True"
| "acq_event (OnPage c, out) = True"
| "acq_event (NewPage c, out) = True"
| "acq_event ev = False"

definition interaction_messages :: "string list" where
  "interaction_messages =
     [''Timeout finding search bar on'', ''Filled search using generic input on'',
      ''Could not find or fill search bar on'', ''Pressed Enter for search on'',
      ''Could not press Enter on'', ''Clicked search button on'',
      ''Could not find or click search button on'']"

fun interaction :: "event \<Rightarrow> bool" where
  "interaction (WaitForTimeout p ms, out) = True"
| "interaction (WaitForLoadState p, out) = True"
| "interaction (Fill p l q, out) = True"
| "interaction (QuerySelectorAll p, out) = True"
| "interaction (InputIsVisible p i, out) = True"
| "interaction (InputFill p i q, out) = True"
| "interaction (PressEnter p, out) = True"
| "interaction (Click p l, out) = True"
| "interaction (Log lvl msg arg, out) = (msg \<in> set interaction_messages)"
| "interaction ev = False"

definition front_event :: "event \<Rightarrow> bool" where
  "front_event ev = (acq_event ev \<or> is_goto ev \<or> interaction ev)"

text \<open>The log line of an attempt whose \<open>try\<close> block raised.\<close>

definition failure_messages :: "string list" where
  "failure_messages = [''Timeout during search on'', ''Generic error searching on'']"

fun attempt_failed :: "event \<Rightarrow> bool" where
  "attempt_failed (Log lvl msg arg, out) = (msg \<in> set failure_messages)"
| "attempt_failed ev = False"

fun is_url_read :: "event \<Rightarrow> bool" where
  "is_url_read (PageUrl p, out) = True"
| "is_url_read ev = False"

text \<open>
  An action that either raises or goes on as \<open>k\<close>, after appending events that satisfy
  \<open>P\<close> and changing no variable.
\<close>

definition leads :: "(event \<Rightarrow> bool) \<Rightarrow> ('r, 'a) io \<Rightarrow> ('r, 'a) io \<Rightarrow> bool" where
  "leads P m k =
     (\<forall>s. \<exists>M. list_all P M \<and>
        ((\<exists>e. m s = (Inl e, s\<lparr>trace := trace s @ M\<rparr>))
         \<or> m s = k (s\<lparr>trace := trace s @ M\<rparr>)))"

text \<open>
  The trace of attempt number \<open>a\<close> on \<open>site\<close> that ends as \<open>c\<close>: the start of
  Playwright and the events up to the read of the page URL, followed by the log line of a
  failure, or by the handling of a redirect (warning, close of the context and the
  browser acquired in this attempt, sleep of two seconds), or by the scrape.
\<close>

definition attempt_trace :: "string \<Rightarrow> nat \<Rightarrow> ctl \<Rightarrow> event list \<Rightarrow> bool" where
  "attempt_trace site a c A =
     (\<exists>out F. list_all front_event F \<and> length (filter is_goto F) \<le> 1
        \<and> length (filter is_launch F) \<le> 1 \<and>
        ((c = Proceed \<and> (\<exists>m. m \<in> set failure_messages
             \<and> A = (PwStart, out) # F @ [(Log ERROR m site, Returned)]))
         \<or> (c = Continue \<and> a < max_retries \<and> (\<exists>p u R pw b cx.
               A = (PwStart, out) # F @ (PageUrl p, RetStr u)
                     # (Log WARNING ''Possible ad redirect on'' site, Returned)
                     # R @ [(Sleep 2000, Returned)]
               \<and> \<not> str_in site u \<and> list_all closing R
               \<and> (\<exists>o1. (ContextClose cx, o1) \<in> set R) \<and> (\<exists>o2. (BrowserClose b, o2) \<in> set R)
               \<and> (Launch pw, RetHandle b) \<in> set F \<and> (NewContext b, RetHandle cx) \<in> set F))
         \<or> (c \<noteq> Continue \<and> (\<exists>p u.
               A = (PwStart, out) # F @ [(PageUrl p, RetStr u),
                     (Log WARNING ''Using DUMMY search results for'' site, Returned)]
               \<and> (str_in site u \<or> \<not> a < max_retries)))))"


text \<open>
  The origin of a URL in the sense of the specification (the source has no such
  function): scheme, host and port, that is the URL up to the first \<open>/\<close>, \<open>?\<close> or
  \<open>#\<close> after the separator \<open>://\<close>.
\<close>

fun split_scheme :: "string \<Rightarrow> string \<Rightarrow> string \<times> string" where
  "split_scheme acc [] = (acc, [])"
| "split_scheme acc (c # cs) =
     (if prefix ''://'' (c # cs) then (acc, drop 3 (c # cs))
      else split_scheme (acc @ [c]) cs)"

definition origin_spec :: "string \<Rightarrow> string" where
  "origin_spec u =
     (case split_scheme [] u of
        (scheme, rest) \<Rightarrow> scheme @ ''://'' @ takeWhile (\<lambda>c. c \<notin> set ''/?#'') rest)"

subsection \<open>What the pages offer\<close>

text \<open>
  The links that a server resolution can use, read from the answers of the environment and
  not from the log lines of the program. The search for the link looks at the page on
  which the dwell of five seconds (line 415) has just ended.
\<close>

fun settled :: "event \<Rightarrow> handle option" where
  "settled (WaitForTimeout p ms, Returned) = (if ms = 5000 then Some p else None)"
| "settled ev = None"

text \<open>The test of line 419 on the URL of that page.\<close>

definition direct_url :: "string \<Rightarrow> bool" where
  "direct_url u =
     (endswith u [''.mp4'', ''.mkv'', ''.avi''] \<or> str_in ''googlevideo.com/videoplayback'' u)"

text \<open>
  The usable link that an event offers when the page \<open>a\<close> has just settled: a direct
  media link as the \<open>href\<close> of a server element (lines 392-393), as the URL of the
  settled page (line 419), as the \<open>src\<close> of the video element (lines 427-428) or as the
  \<open>href\<close> of the download button (lines 440-441). A read of the page URL at another
  moment (line 402) offers nothing.
\<close>

fun offers :: "handle option \<Rightarrow> event \<Rightarrow> string option" where
  "offers a (GetAttribute p (ServerElement i) n, RetOpt h) =
     (if is_direct [''.mp4'', ''.mkv'', ''.avi'', ''.webm''] h then h else None)"
| "offers a (GetAttribute p VideoElement n, RetOpt h) =
     (if is_direct [''.mp4'', ''.mkv''] h then h else None)"
| "offers a (GetAttribute p DownloadButton n, RetOpt h) =
     (if is_direct [''.mp4'', ''.mkv''] h then h else None)"
| "offers a (PageUrl p, RetStr u) = (if a = Some p \<and> direct_url u then Some u else None)"
| "offers a ev = None"

text \<open>The links offered along a trace, in order; \<open>a\<close> is the page settled before it.\<close>

fun offered_from :: "handle option \<Rightarrow> event list \<Rightarrow> string list" where
  "offered_from a [] = []"
| "offered_from a (ev # tr) =
     (case offers a ev of
        None \<Rightarrow> offered_from (settled ev) tr
      | Some l \<Rightarrow> l # offered_from (settled ev) tr)"

definition offered :: "event list \<Rightarrow> string list" where
  "offered tr = offered_from None tr"

text \<open>The page settled at the end of a trace.\<close>

definition settled_end :: "event list \<Rightarrow> handle option" where
  "settled_end tr = (if tr = [] then None else settled (last tr))"

text \<open>An event that examines no identifier, settles no page and offers nothing.\<close>

definition inert :: "event \<Rightarrow> bool" where
  "inert ev = (examines ev = None \<and> settled ev = None \<and> (\<forall>a. offers a ev = None))"

text \<open>
  Assertions on frames: from a frame that satisfies \<open>P\<close>, the action \<open>m\<close> returns \<open>x\<close>
  in a frame that satisfies \<open>Q x\<close>, or raises in a frame that satisfies \<open>E\<close>.
\<close>

definition hoare ::
  "('r frame \<Rightarrow> bool) \<Rightarrow> ('r, 'a) io \<Rightarrow> ('a \<Rightarrow> 'r frame \<Rightarrow> bool) \<Rightarrow> ('r frame \<Rightarrow> bool) \<Rightarrow> bool" where
  "hoare P m Q E =
     (\<forall>s. P s \<longrightarrow> (case m s of (Inl e, s') \<Rightarrow> E s' | (Inr x, s') \<Rightarrow> Q x s'))"

text \<open>
  The frames of a server search. \<open>seeking\<close>: no link is assigned and none was offered.
  \<open>trying\<close>: the same, inside the attempt on an identifier; \<open>attempting a\<close> adds the page
  that has just settled. \<open>pending x\<close>: the last event offered the link \<open>x\<close>, the first
  offer of the run, and it is not assigned yet. \<open>found_at\<close>: the link of the first offer
  is assigned and its log line is the last event.
\<close>

definition seeking :: "string option frame \<Rightarrow> bool" where
  "seeking s = (result_var s = None \<and> offered (trace s) = [])"

definition trying :: "string option frame \<Rightarrow> bool" where
  "trying s = (seeking s \<and> examined (trace s) \<noteq> [])"

definition attempting :: "handle option \<Rightarrow> string option frame \<Rightarrow> bool" where
  "attempting a s = (trying s \<and> settled_end (trace s) = a)"

definition pending :: "string option \<Rightarrow> string option frame \<Rightarrow> bool" where
  "pending x s =
     (result_var s = None \<and>
      (\<exists>l X ev. x = Some l \<and> l \<noteq> [] \<and> trace s = X @ [ev] \<and> offered X = []
         \<and> examined X \<noteq> [] \<and> offers (settled_end X) ev = Some l))"

definition found_at :: "string option frame \<Rightarrow> bool" where
  "found_at s =
     (\<exists>l X ev msg. result_var s = Some l \<and> l \<noteq> []
        \<and> trace s = X @ [ev, (Log INFO msg l, Returned)] \<and> offered X = []
        \<and> examined X \<noteq> [] \<and> offers (settled_end X) ev = Some l)"

text \<open>
  The frame after a piece of the attempt that ends as \<open>c\<close>, after the attempt on one
  identifier, and after a loop.
\<close>

definition sought :: "ctl \<Rightarrow> string option frame \<Rightarrow> bool" where
  "sought c s = (if c = Break then found_at s else attempting None s)"

definition searched :: "ctl \<Rightarrow> string option frame \<Rightarrow> bool" where
  "searched c s = (if c = Break then found_at s else seeking s)"

definition search_over :: "string option frame \<Rightarrow> bool" where
  "search_over s = (found_at s \<or> seeking s)"

section \<open>Concrete worlds\<close>

text \<open>A world where no call raises, nothing is visible and every string is empty.\<close>

definition quiet :: world where
  "quiet = \<lparr>raises = (\<lambda>n. None), bool_at = (\<lambda>n. False), str_at = (\<lambda>n. []),
            opt_at = (\<lambda>n. None), nat_at = (\<lambda>n. 0)\<rparr>"

text \<open>The call at position \<open>k\<close> raises \<open>e\<close>.\<close>

definition failing_at :: "nat \<Rightarrow> exn \<Rightarrow> world" where
  "failing_at k e = quiet\<lparr>raises := (\<lambda>n. if n = k then Some e else None)\<rparr>"

text \<open>Every page is at \<open>u\<close>.\<close>

definition landing_on :: "string \<Rightarrow> world" where
  "landing_on u = quiet\<lparr>str_at := (\<lambda>n. u)\<rparr>"

text \<open>
  In a server resolution, the element of \<open>FSL Server\<close> (the call at position 16) is
  visible and its \<open>href\<close> (the call at position 18) is a direct media link.
\<close>

definition fsl_direct :: world where
  "fsl_direct = quiet\<lparr>bool_at := (\<lambda>n. n = 16),
       opt_at := (\<lambda>n. if n = 18 then Some ''https://cdn.example.net/movie.mp4'' else None)\<rparr>"

text \<open>
  In a server resolution, the element of \<open>Server One\<close> (the call at position 11) is
  visible and has no \<open>href\<close>; every read of a page URL answers a direct media link.
\<close>

definition page_direct :: world where
  "page_direct = quiet\<lparr>bool_at := (\<lambda>n. n = 11),
       str_at := (\<lambda>n. ''https://cdn.example.net/movie.mp4'')\<rparr>"

text \<open>
  In a search, the first read of the page URL (the call at position 14) finds the page
  on a foreign site; every later read finds it on the searched site.
\<close>

definition redirected_once :: world where
  "redirected_once = quiet\<lparr>str_at := (\<lambda>n. if n = 14 then ''https://ads.example.net/landing''
       else ''https://dummy-movie-site-alpha.com/?s=Inception'')\<rparr>"


section \<open>Properties of the ad blocking\<close>

lemma str_in_iff: "str_in pat s \<longleftrightarrow> sublist pat s"
  by (induction s) (auto simp: sublist_Cons_right)

lemma matches_ad_pattern_iff:
  "matches_ad_pattern u \<longleftrightarrow> (\<exists>pattern \<in> set AD_DOMAINS_PATTERNS. sublist pattern u)"
  by (simp add: matches_ad_pattern_def list_ex_iff str_in_iff)

lemma matches_doubleclick: "matches_ad_pattern ''https://ad.doubleclick.net/pixel.gif''"
  by (simp add: matches_ad_pattern_def AD_DOMAINS_PATTERNS_def)

lemma matches_popads: "matches_ad_pattern ''https://popads.net/win''"
  by (simp add: matches_ad_pattern_def AD_DOMAINS_PATTERNS_def)

lemma no_match_vcloud: "\<not> matches_ad_pattern ''https://vcloud.example/file''"
  by (simp add: matches_ad_pattern_def AD_DOMAINS_PATTERNS_def)

text \<open>
  Claim C4. The interceptor calls \<open>route.abort()\<close> exactly when the resource type is one
  of image, script, iframe, media, websocket and the URL contains an entry of the denylist;
  in every other case, a document request among them, it calls \<open>route.continue_()\<close>
  and nothing else. It makes exactly one of the two calls and never raises.
\<close>

theorem block_ads_route_decision:
  "(RouteAbort \<in> set (fst (block_ads_route r)) \<longleftrightarrow>
      resource_type r \<in> {''image'', ''script'', ''iframe'', ''media'', ''websocket''}
      \<and> (\<exists>pattern \<in> set AD_DOMAINS_PATTERNS. sublist pattern (url r)))
   \<and> (RouteAbort \<notin> set (fst (block_ads_route r)) \<longrightarrow> fst (block_ads_route r) = [RouteContinue])
   \<and> (RouteAbort \<in> set (fst (block_ads_route r)) \<longrightarrow> fst (block_ads_route r) = [RouteAbort])
   \<and> (resource_type r = ''document'' \<longrightarrow> fst (block_ads_route r) = [RouteContinue])
   \<and> snd (block_ads_route r) = Inr ()"
  by (auto simp: block_ads_route_def matches_ad_pattern_iff split: option.splits)

theorem block_ads_route_decision_witness:
  "fst (block_ads_route \<lparr>url = ''https://ad.doubleclick.net/pixel.gif'', resource_type = ''image'',
                          abort_outcome = None, continue_outcome = None\<rparr>) = [RouteAbort]
   \<and> fst (block_ads_route \<lparr>url = ''https://ad.doubleclick.net/pixel.gif'', resource_type = ''document'',
                          abort_outcome = None, continue_outcome = None\<rparr>) = [RouteContinue]"
proof -
  let ?img = "\<lparr>url = ''https://ad.doubleclick.net/pixel.gif'', resource_type = ''image'',
               abort_outcome = None, continue_outcome = None\<rparr>"
  let ?doc = "\<lparr>url = ''https://ad.doubleclick.net/pixel.gif'', resource_type = ''document'',
               abort_outcome = None, continue_outcome = None\<rparr>"
  have "\<exists>pattern \<in> set AD_DOMAINS_PATTERNS. sublist pattern (url ?img)"
    using matches_doubleclick by (simp only: matches_ad_pattern_iff route.simps)
  moreover have "resource_type ?img \<in> {''image'', ''script'', ''iframe'', ''media'', ''websocket''}"
    by simp
  ultimately have "RouteAbort \<in> set (fst (block_ads_route ?img))"
    using block_ads_route_decision [of ?img] by blast
  then have "fst (block_ads_route ?img) = [RouteAbort]"
    using block_ads_route_decision [of ?img] by blast
  moreover have "resource_type ?doc = ''document''"
    by simp
  then have "fst (block_ads_route ?doc) = [RouteContinue]"
    using block_ads_route_decision [of ?doc] by blast
  ultimately show ?thesis by blast
qed

text \<open>
  Claim C6. The popup listener calls \<open>close()\<close> on the new page exactly when its URL
  contains an entry of the denylist of the request filter; whatever \<open>close()\<close> raises
  is swallowed, and a page that matches no entry receives no call at all.
\<close>

theorem handle_popup_decision:
  "(PageClose \<in> set (fst (handle_popup p)) \<longleftrightarrow>
      (\<exists>pattern \<in> set AD_DOMAINS_PATTERNS. sublist pattern (popup_url p)))
   \<and> (PageClose \<notin> set (fst (handle_popup p)) \<longrightarrow> fst (handle_popup p) = [])
   \<and> (PageClose \<in> set (fst (handle_popup p)) \<longrightarrow> fst (handle_popup p) = [PageClose])
   \<and> snd (handle_popup p) = Inr ()"
  by (auto simp: handle_popup_def matches_ad_pattern_iff split: option.splits)

theorem handle_popup_decision_witness:
  "handle_popup \<lparr>popup_url = ''https://popads.net/win'', close_outcome = Some OtherException\<rparr>
     = ([PageClose], Inr ())
   \<and> handle_popup \<lparr>popup_url = ''https://vcloud.example/file'', close_outcome = None\<rparr> = ([], Inr ())"
proof -
  let ?ad = "\<lparr>popup_url = ''https://popads.net/win'', close_outcome = Some OtherException\<rparr>"
  let ?ok = "\<lparr>popup_url = ''https://vcloud.example/file'', close_outcome = None\<rparr>"
  have "\<exists>pattern \<in> set AD_DOMAINS_PATTERNS. sublist pattern (popup_url ?ad)"
    using matches_popads by (simp only: matches_ad_pattern_iff popup_page.simps)
  then have "PageClose \<in> set (fst (handle_popup ?ad))"
    using handle_popup_decision [of ?ad] by blast
  then have a: "fst (handle_popup ?ad) = [PageClose]" "snd (handle_popup ?ad) = Inr ()"
    using handle_popup_decision [of ?ad] by blast+
  have "\<not> (\<exists>pattern \<in> set AD_DOMAINS_PATTERNS. sublist pattern (popup_url ?ok))"
    using no_match_vcloud by (simp only: matches_ad_pattern_iff popup_page.simps simp_thms)
  then have "PageClose \<notin> set (fst (handle_popup ?ok))"
    using handle_popup_decision [of ?ok] by blast
  then have b: "fst (handle_popup ?ok) = []" "snd (handle_popup ?ok) = Inr ()"
    using handle_popup_decision [of ?ok] by blast+
  from a b show ?thesis by (simp only: prod_eq_iff fst_conv snd_conv)
qed

section \<open>Properties of the user store\<close>

lemma map_of_dict_set: "map_of (dict_set k v d) = (map_of d)(k \<mapsto> v)"
  by (induction d) (auto simp: fun_eq_iff)

lemma fst_dict_set: "fst ` set (dict_set k v d) = insert k (fst ` set d)"
  by (simp add: dom_map_of_conv_image_fst [symmetric] map_of_dict_set)

lemma distinct_dict_set: "distinct (map fst d) \<Longrightarrow> distinct (map fst (dict_set k v d))"
  by (induction d) (auto simp: fst_dict_set)

lemma fst_dict_del: "x \<in> fst ` set (dict_del k d) \<Longrightarrow> x \<in> fst ` set d"
  by (induction d) (force split: if_splits)+

lemma distinct_dict_del: "distinct (map fst d) \<Longrightarrow> distinct (map fst (dict_del k d))"
proof (induction d)
  case Nil
  then show ?case by simp
next
  case (Cons a d)
  then show ?case using fst_dict_del [of _ k d] by (cases a) auto
qed

lemma map_of_dict_del:
  "distinct (map fst d) \<Longrightarrow> map_of (dict_del k d) = (map_of d)(k := None)"
proof (induction d)
  case Nil
  then show ?case by simp
next
  case (Cons a d)
  obtain k' v' where a: "a = (k', v')" by (cases a)
  from Cons.prems a have "k' \<notin> fst ` set d" by simp
  then have "map_of d k' = None" by (simp add: map_of_eq_None_iff)
  with Cons a show ?case by (auto simp: fun_eq_iff)
qed

lemma delete_users_lookup:
  "distinct (map fst s) \<Longrightarrow>
   map_of (delete_users ks s) c = (if c \<in> set ks then None else map_of s c)"
proof (induction ks arbitrary: s)
  case Nil
  then show ?case by simp
next
  case (Cons k ks)
  show ?case
  proof (cases "map_of s k")
    case None
    with Cons show ?thesis by auto
  next
    case (Some r)
    have d: "distinct (map fst (dict_del k s))"
      using Cons.prems by (rule distinct_dict_del)
    show ?thesis
      using Some Cons.IH [OF d] map_of_dict_del [OF Cons.prems, of k] by auto
  qed
qed

lemma expired_users_set:
  "distinct (map fst s) \<Longrightarrow>
   c \<in> set (expired_users now s) \<longleftrightarrow>
     (\<exists>r. map_of s c = Some r \<and> now - timestamp r > DATA_EXPIRY_SECONDS)"
  by (force simp: expired_users_def)

lemma wf_store_user_data: "wf_store s \<Longrightarrow> wf_store (store_user_data now c k v s)"
  by (auto simp: wf_store_def store_user_data_def Let_def distinct_dict_set split: option.splits)


lemma cleanup_lookup:
  assumes "wf_store s"
  shows "map_of (cleanup_expired_data now s) c =
          (case map_of s c of
             None \<Rightarrow> None
           | Some r \<Rightarrow> if now - timestamp r > DATA_EXPIRY_SECONDS then None else Some r)"
proof -
  from assms have d: "distinct (map fst s)" by (simp add: wf_store_def)
  show ?thesis
    unfolding cleanup_expired_data_def delete_users_lookup [OF d] expired_users_set [OF d]
    by (auto split: option.splits)
qed

lemma store_user_data_lookup:
  "\<exists>r. map_of (store_user_data t c k v s) c = Some r \<and> timestamp r = t
        \<and> map_of (data r) k = Some v"
  by (auto simp: store_user_data_def Let_def map_of_dict_set split: option.splits)

lemma store_user_data_other:
  "c' \<noteq> c \<Longrightarrow> map_of (store_user_data t c k v s) c' = map_of s c'"
  by (auto simp: store_user_data_def Let_def map_of_dict_set split: option.splits)

text \<open>
  Claim C10. On a store with one entry per chat id, \<open>cleanup_expired_data\<close> removes
  exactly the records whose timestamp lies more than \<open>DATA_EXPIRY_SECONDS\<close> before the
  current time and leaves every other record as it was. \<open>store_user_data\<close> sets the
  timestamp of the record it writes to the time of the write, for a new and for an existing
  record, so a record written at \<open>t\<close> is removed exactly when the sweep runs more than
  \<open>DATA_EXPIRY_SECONDS\<close> after \<open>t\<close>, whenever it was created.
\<close>

theorem cleanup_expired_exact:
  assumes "wf_store s"
  shows "map_of (cleanup_expired_data now s) c =
          (case map_of s c of
             None \<Rightarrow> None
           | Some r \<Rightarrow> if now - timestamp r > DATA_EXPIRY_SECONDS then None else Some r)
    \<and> (\<exists>r. map_of (store_user_data t c k v s) c = Some r \<and> timestamp r = t)
    \<and> (map_of (cleanup_expired_data now (store_user_data t c k v s)) c = None
           \<longleftrightarrow> now - t > DATA_EXPIRY_SECONDS)"
proof -
  obtain r where r: "map_of (store_user_data t c k v s) c = Some r" "timestamp r = t"
    using store_user_data_lookup [of t c k v s] by blast
  have "map_of (cleanup_expired_data now (store_user_data t c k v s)) c = None
           \<longleftrightarrow> now - t > DATA_EXPIRY_SECONDS"
    using r by (simp add: cleanup_lookup [OF wf_store_user_data [OF assms]])
  with r cleanup_lookup [OF assms] show ?thesis by simp
qed

theorem cleanup_expired_exact_witness:
  "wf_store [(1, \<lparr>timestamp = 0, data = [(''q'', ''a'')]\<rparr>), (2, \<lparr>timestamp = 5000, data = []\<rparr>)]
   \<and> map_of (cleanup_expired_data 8000
        [(1, \<lparr>timestamp = 0, data = [(''q'', ''a'')]\<rparr>), (2, \<lparr>timestamp = 5000, data = []\<rparr>)]) 1 = None
   \<and> map_of (cleanup_expired_data 8000
        [(1, \<lparr>timestamp = 0, data = [(''q'', ''a'')]\<rparr>), (2, \<lparr>timestamp = 5000, data = []\<rparr>)]) 2
       = Some \<lparr>timestamp = 5000, data = []\<rparr>
   \<and> map_of (cleanup_expired_data 8000 (store_user_data 7000 1 ''q'' ''b''
        [(1, \<lparr>timestamp = 0, data = [(''q'', ''a'')]\<rparr>), (2, \<lparr>timestamp = 5000, data = []\<rparr>)])) 1 \<noteq> None"
proof -
  let ?s = "[(1::int, \<lparr>timestamp = 0, data = [(''q'', ''a'')]\<rparr>), (2, \<lparr>timestamp = 5000, data = []\<rparr>)]"
  have w: "wf_store ?s" by (simp add: wf_store_def)
  show ?thesis
    using w cleanup_expired_exact [OF w, of 8000 1 7000 "''q''" "''b''"]
      cleanup_expired_exact [OF w, of 8000 2 7000 "''q''" "''b''"]
    by (simp add: DATA_EXPIRY_SECONDS_def)
qed

section \<open>Runs on concrete worlds\<close>

lemmas io_defs = bind_io_def return_io_def raise_io_def gets_def modify_def try_except_def
  try_finally_def emit_def call_unit_def call_handle_def call_bool_def call_opt_def call_nat_def
  read_url_def read_new_page_def log_def sleep_def entry_def

lemmas session_defs = get_playwright_page_def acquire_def close_playwright_resources_def
  close_if_open_def release_def

lemmas world_defs = quiet_def failing_at_def landing_on_def

lemmas search_defs = search_movie_on_site_def search_try_def after_submit_def
  search_except_def fill_search_bar_def
  submit_search_def looks_redirected_def startswith_def dummy_results_def max_retries_def

text \<open>
  Claim C3, at a world where the browser launches and \<open>browser.new_context\<close> raises:
  \<open>get_movie_source_websites\<close> returns the empty list, and its trace holds the launch of
  browser 2 and the start of Playwright 1 but neither \<open>browser.close()\<close> nor
  \<open>playwright.stop()\<close>. The exception leaves \<open>get_playwright_page\<close> before the tuple
  is assigned, so \<open>browser\<close> and \<open>playwright\<close> are still \<open>None\<close> in the
  \<open>finally\<close> block and both of its tests fail.
\<close>

theorem failed_acquire_leaks_browser:
  "get_movie_source_websites (failing_at 3 OtherException) ''https://vglist.nl/'' =
     (Inr [],
      \<lparr>playwright_var = None, browser_var = None, context_var = None, result_var = [],
       trace = [(Log INFO ''Fetching source websites from'' ''https://vglist.nl/'', Returned),
                (PwStart, RetHandle 1),
                (Launch 1, RetHandle 2),
                (NewContext 2, Raised OtherException),
                (Log ERROR ''Error scraping'' ''https://vglist.nl/'', Returned),
                (Log INFO ''Found source sites'' [], Returned)]\<rparr>)"
  by (simp add: get_movie_source_websites_def io_defs session_defs world_defs)

section \<open>Sessions\<close>

text \<open>
  Claim C8. In every run of \<open>get_playwright_page\<close>, a call of \<open>new_page\<close> on a
  context is the last event, directly preceded by the successful installation of the route
  and of the popup listener on that context, and no page was created before. A run that
  returns a session has made exactly these calls, so the only page a caller can navigate
  belongs to a context whose interception and popup handler are installed.
\<close>

theorem interception_installed_before_first_page:
  "\<exists>tr. trace (snd (get_playwright_page w playwright_instance s)) = trace s @ tr
     \<and> (\<forall>c out. (NewPage c, out) \<in> set tr \<longrightarrow>
           (\<exists>pre. tr = pre @ [(Route c, Returned), (OnPage c, Returned), (NewPage c, out)]
                  \<and> (\<forall>c' out'. (NewPage c', out') \<notin> set pre)))
     \<and> (\<forall>pw b c p. fst (get_playwright_page w playwright_instance s) = Inr (pw, b, c, p) \<longrightarrow>
           (\<exists>pre. tr = pre @ [(Launch pw, RetHandle b), (NewContext b, RetHandle c),
                               (Route c, Returned), (OnPage c, Returned),
                               (NewPage c, RetHandle p)]))"
  by (cases playwright_instance)
     (auto simp: get_playwright_page_def io_defs split: option.splits)

theorem interception_installed_before_first_page_witness:
  "get_playwright_page quiet None (entry ()) =
     (Inr (0, 1, 2, 5),
      (entry ())\<lparr>trace := [(PwStart, RetHandle 0), (Launch 0, RetHandle 1),
                            (NewContext 1, RetHandle 2), (Route 2, Returned),
                            (OnPage 2, Returned), (NewPage 2, RetHandle 5)]\<rparr>)
   \<and> (\<exists>pre. [(PwStart, RetHandle 0), (Launch 0, RetHandle 1),
               (NewContext 1, RetHandle 2), (Route 2, Returned),
               (OnPage 2, Returned), (NewPage 2, RetHandle 5)]
             = pre @ [(Route 2, Returned), (OnPage 2, Returned), (NewPage 2, RetHandle 5)])"
proof -
  have run: "get_playwright_page quiet None (entry ()) =
     (Inr (0, 1, 2, 5),
      (entry ())\<lparr>trace := [(PwStart, RetHandle 0), (Launch 0, RetHandle 1),
                            (NewContext 1, RetHandle 2), (Route 2, Returned),
                            (OnPage 2, Returned), (NewPage 2, RetHandle 5)]\<rparr>)"
    by (simp add: get_playwright_page_def io_defs world_defs)
  from interception_installed_before_first_page [of quiet None "entry ()"]
  obtain tr where tr: "trace (snd (get_playwright_page quiet None (entry ()))) = trace (entry ()) @ tr"
    and np: "\<forall>c out. (NewPage c, out) \<in> set tr \<longrightarrow>
           (\<exists>pre. tr = pre @ [(Route c, Returned), (OnPage c, Returned), (NewPage c, out)]
                  \<and> (\<forall>c' out'. (NewPage c', out') \<notin> set pre))"
    by blast
  from tr run have "tr = [(PwStart, RetHandle 0), (Launch 0, RetHandle 1),
                            (NewContext 1, RetHandle 2), (Route 2, Returned),
                            (OnPage 2, Returned), (NewPage 2, RetHandle 5)]"
    by (simp add: entry_def)
  with np have "\<exists>pre. [(PwStart, RetHandle 0), (Launch 0, RetHandle 1),
               (NewContext 1, RetHandle 2), (Route 2, Returned),
               (OnPage 2, Returned), (NewPage 2, RetHandle 5)]
             = pre @ [(Route 2, Returned), (OnPage 2, Returned), (NewPage 2, RetHandle 5)]"
    by auto
  with run show ?thesis by blast
qed

section \<open>Server resolution\<close>

subsection \<open>Rules for actions that only append events\<close>

lemma onlyI:
  assumes "\<And>s. \<exists>tr. snd (m s) = s\<lparr>trace := trace s @ tr\<rparr> \<and> list_all P tr"
  shows "only P m"
  using assms by (simp add: only_def)

lemma onlyE:
  assumes "only P m"
  obtains r tr where "m s = (r, s\<lparr>trace := trace s @ tr\<rparr>)" "list_all P tr"
proof -
  from assms obtain tr where "snd (m s) = s\<lparr>trace := trace s @ tr\<rparr>" "list_all P tr"
    unfolding only_def by blast
  then show thesis using that [of "fst (m s)" tr] by (simp add: prod_eq_iff)
qed

lemma only_return: "only P (return_io x)"
  by (rule onlyI, rule exI [of _ "[]"]) (simp add: return_io_def)

lemma only_raise: "only P (raise_io e)"
  by (rule onlyI, rule exI [of _ "[]"]) (simp add: raise_io_def)

lemma only_gets: "only P (gets f)"
  by (rule onlyI, rule exI [of _ "[]"]) (simp add: gets_def)

lemma only_log: "P (Log lvl msg arg, Returned) \<Longrightarrow> only P (log lvl msg arg)"
  by (rule onlyI, rule exI [of _ "[(Log lvl msg arg, Returned)]"]) (simp add: log_def emit_def)

lemma only_sleep: "P (Sleep ms, Returned) \<Longrightarrow> only P (sleep ms)"
  by (rule onlyI, rule exI [of _ "[(Sleep ms, Returned)]"]) (simp add: sleep_def emit_def)

lemma only_call_unit: "(\<And>out. P (c, out)) \<Longrightarrow> only P (call_unit w c)"
  by (rule onlyI) (auto simp: call_unit_def emit_def split: option.splits)

lemma only_call_handle: "(\<And>out. P (c, out)) \<Longrightarrow> only P (call_handle w c)"
  by (rule onlyI) (auto simp: call_handle_def emit_def split: option.splits)

lemma only_call_bool: "(\<And>out. P (c, out)) \<Longrightarrow> only P (call_bool w c)"
  by (rule onlyI) (auto simp: call_bool_def emit_def split: option.splits)

lemma only_call_opt: "(\<And>out. P (c, out)) \<Longrightarrow> only P (call_opt w c)"
  by (rule onlyI) (auto simp: call_opt_def emit_def split: option.splits)

lemma only_call_nat: "(\<And>out. P (c, out)) \<Longrightarrow> only P (call_nat w c)"
  by (rule onlyI) (auto simp: call_nat_def emit_def split: option.splits)

lemma only_read_url: "(\<And>out. P (PageUrl p, out)) \<Longrightarrow> only P (read_url w p)"
  by (rule onlyI) (auto simp: read_url_def emit_def)

lemma only_read_new_page: "(\<And>out. P (ContextPages c, out)) \<Longrightarrow> only P (read_new_page w c)"
  by (rule onlyI) (auto simp: read_new_page_def emit_def)

lemma only_bind:
  assumes "only P m" and "\<And>x. only P (f x)"
  shows "only P (bind_io m f)"
proof (rule onlyI)
  fix s
  from assms(1) obtain r tr where m: "m s = (r, s\<lparr>trace := trace s @ tr\<rparr>)" "list_all P tr"
    by (rule onlyE)
  show "\<exists>tr. snd (bind_io m f s) = s\<lparr>trace := trace s @ tr\<rparr> \<and> list_all P tr"
  proof (cases r)
    case (Inl e)
    with m show ?thesis by (auto simp: bind_io_def)
  next
    case (Inr x)
    from assms(2) [of x] obtain r' tr'
      where f: "f x (s\<lparr>trace := trace s @ tr\<rparr>) = (r', s\<lparr>trace := trace s @ tr @ tr'\<rparr>)"
        "list_all P tr'"
      by (rule onlyE [where s = "s\<lparr>trace := trace s @ tr\<rparr>"]) simp
    with m Inr have "snd (bind_io m f s) = s\<lparr>trace := trace s @ (tr @ tr')\<rparr>"
      by (simp add: bind_io_def)
    moreover from m f have "list_all P (tr @ tr')" by simp
    ultimately show ?thesis by blast
  qed
qed

lemma only_try_except:
  assumes "only P m" and "\<And>e. only P (h e)"
  shows "only P (try_except m h)"
proof (rule onlyI)
  fix s
  from assms(1) obtain r tr where m: "m s = (r, s\<lparr>trace := trace s @ tr\<rparr>)" "list_all P tr"
    by (rule onlyE)
  show "\<exists>tr. snd (try_except m h s) = s\<lparr>trace := trace s @ tr\<rparr> \<and> list_all P tr"
  proof (cases r)
    case (Inr x)
    with m show ?thesis by (auto simp: try_except_def)
  next
    case (Inl e)
    from assms(2) [of e] obtain r' tr'
      where f: "h e (s\<lparr>trace := trace s @ tr\<rparr>) = (r', s\<lparr>trace := trace s @ tr @ tr'\<rparr>)"
        "list_all P tr'"
      by (rule onlyE [where s = "s\<lparr>trace := trace s @ tr\<rparr>"]) simp
    with m Inl have "snd (try_except m h s) = s\<lparr>trace := trace s @ (tr @ tr')\<rparr>"
      by (simp add: try_except_def)
    moreover from m f have "list_all P (tr @ tr')" by simp
    ultimately show ?thesis by blast
  qed
qed

lemma only_try_finally:
  assumes "only P m" and "only P f"
  shows "only P (try_finally m f)"
proof (rule onlyI)
  fix s
  from assms(1) obtain r tr where m: "m s = (r, s\<lparr>trace := trace s @ tr\<rparr>)" "list_all P tr"
    by (rule onlyE)
  from assms(2) obtain r' tr'
    where f: "f (s\<lparr>trace := trace s @ tr\<rparr>) = (r', s\<lparr>trace := trace s @ tr @ tr'\<rparr>)"
      "list_all P tr'"
    by (rule onlyE [where s = "s\<lparr>trace := trace s @ tr\<rparr>"]) simp
  with m have "snd (try_finally m f s) = s\<lparr>trace := trace s @ (tr @ tr')\<rparr>"
    by (cases r') (simp_all add: try_finally_def)
  moreover from m f have "list_all P (tr @ tr')" by simp
  ultimately show "\<exists>tr. snd (try_finally m f s) = s\<lparr>trace := trace s @ tr\<rparr> \<and> list_all P tr"
    by blast
qed

lemma only_if: "(b \<Longrightarrow> only P m) \<Longrightarrow> (\<not> b \<Longrightarrow> only P m') \<Longrightarrow> only P (if b then m else m')"
  by simp

lemma only_case_option:
  "(x = None \<Longrightarrow> only P m) \<Longrightarrow> (\<And>y. x = Some y \<Longrightarrow> only P (f y)) \<Longrightarrow>
   only P (case x of None \<Rightarrow> m | Some y \<Rightarrow> f y)"
  by (cases x) simp_all

lemma only_case_exn:
  "only P m \<Longrightarrow> only P m' \<Longrightarrow>
   only P (case e of PlaywrightTimeoutError \<Rightarrow> m | OtherException \<Rightarrow> m')"
  by (cases e) simp_all

lemma only_mono: "only P m \<Longrightarrow> (\<And>ev. P ev \<Longrightarrow> Q ev) \<Longrightarrow> only Q m"
  unfolding only_def list_all_iff by blast

lemmas only_intros = only_return only_raise only_gets only_log only_sleep only_call_unit
  only_call_handle only_call_bool only_call_opt only_call_nat only_read_url only_read_new_page
  only_bind only_try_except only_try_finally only_if only_case_option only_case_exn

subsection \<open>The attempt on one identifier\<close>

lemma examined_Nil [simp]: "examined [] = []"
  by (simp add: examined_def List.map_filter_simps)

lemma examined_Cons:
  "examined (ev # tr) = (case examines ev of None \<Rightarrow> examined tr | Some i \<Rightarrow> i # examined tr)"
  by (cases "examines ev") (simp_all add: examined_def List.map_filter_simps)

lemma examined_append: "examined (a @ b) = examined a @ examined b"
  by (induction a) (auto simp: examined_Cons split: option.splits)

lemma plain_examined: "list_all plain tr \<Longrightarrow> examined tr = []"
  by (induction tr) (auto simp: examined_Cons plain_def)

lemma plain_no_prologue: "list_all plain tr \<Longrightarrow> list_all (\<lambda>ev. \<not> is_prologue ev) tr"
  by (induction tr) (auto simp: plain_def)

lemma plain_no_yields: "list_all plain tr \<Longrightarrow> list_all (\<lambda>ev. \<not> yields ev) tr"
  by (induction tr) (auto simp: plain_def)

lemma found_end_append:
  "list_all (\<lambda>ev. \<not> yields ev) a \<Longrightarrow> found_end fl b \<Longrightarrow> found_end fl (a @ b)"
  by (auto simp: found_end_def butlast_append)

lemma found_end_not_None: "found_end fl tr \<Longrightarrow> fl \<noteq> None"
  by (auto simp: found_end_def)

lemma innerD:
  assumes "inner m" and "result_var s = None"
  shows "\<exists>r fl tr. m s = (r, s\<lparr>result_var := fl, trace := trace s @ tr\<rparr>)
    \<and> examined tr = [] \<and> list_all (\<lambda>ev. \<not> is_prologue ev) tr
    \<and> (r = Inr Break \<longrightarrow> found_end fl tr)
    \<and> (r \<noteq> Inr Break \<longrightarrow> fl = None \<and> list_all (\<lambda>ev. \<not> yields ev) tr)"
proof -
  from assms obtain r fl tr where *: "m s = (r, s\<lparr>result_var := fl, trace := trace s @ tr\<rparr>)"
    "examined tr = []" "list_all (\<lambda>ev. \<not> is_prologue ev) tr"
    "if r = Inr Break then found_end fl tr
     else fl = None \<and> list_all (\<lambda>ev. \<not> yields ev) tr"
    unfolding inner_def by blast
  show ?thesis
    by (intro exI [of _ r] exI [of _ fl] exI [of _ tr]) (use * in \<open>simp split: if_splits\<close>)
qed

lemma inner_return: "c \<noteq> Break \<Longrightarrow> inner (return_io c)"
  unfolding inner_def
proof (intro allI impI)
  fix s :: "string option frame"
  assume "c \<noteq> Break" "result_var s = None"
  then have "return_io c s = (Inr c, s\<lparr>result_var := None, trace := trace s @ []\<rparr>)"
    by (simp add: return_io_def)
  with \<open>c \<noteq> Break\<close>
  show "\<exists>r fl tr. return_io c s = (r, s\<lparr>result_var := fl, trace := trace s @ tr\<rparr>)
     \<and> examined tr = [] \<and> list_all (\<lambda>ev. \<not> is_prologue ev) tr
     \<and> (if r = Inr Break then found_end fl tr
          else fl = None \<and> list_all (\<lambda>ev. \<not> yields ev) tr)"
    by (intro exI [of _ "Inr c"] exI [of _ None] exI [of _ "[]"]) simp
qed

lemma inner_found_Some:
  assumes "l \<noteq> []" and "msg \<in> set found_messages"
  shows "inner (found msg (Some l))"
  unfolding inner_def
proof (intro allI impI)
  fix s :: "string option frame"
  have run: "found msg (Some l) s
      = (Inr Break, s\<lparr>result_var := Some l, trace := trace s @ [(Log INFO msg l, Returned)]\<rparr>)"
    by (simp add: found_def io_defs)
  have "found_end (Some l) [(Log INFO msg l, Returned)]"
    using assms by (simp add: found_end_def)
  with run
  show "\<exists>r fl tr. found msg (Some l) s = (r, s\<lparr>result_var := fl, trace := trace s @ tr\<rparr>)
     \<and> examined tr = [] \<and> list_all (\<lambda>ev. \<not> is_prologue ev) tr
     \<and> (if r = Inr Break then found_end fl tr
          else fl = None \<and> list_all (\<lambda>ev. \<not> yields ev) tr)"
    by (intro exI [of _ "Inr Break"] exI [of _ "Some l"] exI [of _ "[(Log INFO msg l, Returned)]"])
       (simp add: examined_Cons)
qed

lemma inner_found: "is_direct exts x \<Longrightarrow> msg \<in> set found_messages \<Longrightarrow> inner (found msg x)"
  by (cases x) (auto intro: inner_found_Some)

lemma inner_break_if_found: "inner break_if_found"
  unfolding inner_def
proof (intro allI impI)
  fix s :: "string option frame"
  assume "result_var s = None"
  then have "break_if_found s = (Inr Proceed, s\<lparr>result_var := None, trace := trace s @ []\<rparr>)"
    by (simp add: break_if_found_def io_defs)
  then show "\<exists>r fl tr. break_if_found s = (r, s\<lparr>result_var := fl, trace := trace s @ tr\<rparr>)
     \<and> examined tr = [] \<and> list_all (\<lambda>ev. \<not> is_prologue ev) tr
     \<and> (if r = Inr Break then found_end fl tr
          else fl = None \<and> list_all (\<lambda>ev. \<not> yields ev) tr)"
    by (intro exI [of _ "Inr Proceed"] exI [of _ None] exI [of _ "[]"]) simp
qed

lemma inner_bind_only:
  assumes "only plain m" and "\<And>x. inner (f x)"
  shows "inner (bind_io m f)"
  unfolding inner_def
proof (intro allI impI)
  fix s :: "string option frame"
  assume none: "result_var s = None"
  from assms(1) obtain r tr where m: "m s = (r, s\<lparr>trace := trace s @ tr\<rparr>)" "list_all plain tr"
    by (rule onlyE)
  note p = plain_examined [OF m(2)] plain_no_prologue [OF m(2)] plain_no_yields [OF m(2)]
  show "\<exists>r fl tr. bind_io m f s = (r, s\<lparr>result_var := fl, trace := trace s @ tr\<rparr>)
     \<and> examined tr = [] \<and> list_all (\<lambda>ev. \<not> is_prologue ev) tr
     \<and> (if r = Inr Break then found_end fl tr
          else fl = None \<and> list_all (\<lambda>ev. \<not> yields ev) tr)"
  proof (cases r)
    case (Inl e)
    from none have "s\<lparr>trace := trace s @ tr\<rparr> = s\<lparr>result_var := None, trace := trace s @ tr\<rparr>"
      by simp
    with m Inl have "bind_io m f s = (Inl e, s\<lparr>result_var := None, trace := trace s @ tr\<rparr>)"
      by (simp add: bind_io_def)
    with p show ?thesis
      by (intro exI [of _ "Inl e"] exI [of _ None] exI [of _ tr]) simp
  next
    case (Inr x)
    have "result_var (s\<lparr>trace := trace s @ tr\<rparr>) = None" using none by simp
    from innerD [OF assms(2) [of x] this] obtain r' fl tr'
      where f: "f x (s\<lparr>trace := trace s @ tr\<rparr>)
                 = (r', s\<lparr>result_var := fl, trace := trace s @ tr @ tr'\<rparr>)"
        and q: "examined tr' = []" "list_all (\<lambda>ev. \<not> is_prologue ev) tr'"
          "r' = Inr Break \<Longrightarrow> found_end fl tr'"
          "r' \<noteq> Inr Break \<Longrightarrow> fl = None \<and> list_all (\<lambda>ev. \<not> yields ev) tr'"
      by auto
    from m Inr f have "bind_io m f s = (r', s\<lparr>result_var := fl, trace := trace s @ (tr @ tr')\<rparr>)"
      by (simp add: bind_io_def)
    moreover have "examined (tr @ tr') = []" using p q by (simp add: examined_append)
    moreover have "list_all (\<lambda>ev. \<not> is_prologue ev) (tr @ tr')" using p q by simp
    moreover have "if r' = Inr Break then found_end fl (tr @ tr')
          else fl = None \<and> list_all (\<lambda>ev. \<not> yields ev) (tr @ tr')"
      using p q by (auto intro: found_end_append)
    ultimately show ?thesis by blast
  qed
qed

lemma inner_bind_break:
  assumes "inner m" and "inner rest"
  shows "inner (bind_io m (\<lambda>c. if c = Break then return_io Break else rest))"
  unfolding inner_def
proof (intro allI impI)
  fix s :: "string option frame"
  assume none: "result_var s = None"
  let ?f = "\<lambda>c. if c = Break then return_io Break else rest"
  from innerD [OF assms(1) none] obtain r fl tr
    where m: "m s = (r, s\<lparr>result_var := fl, trace := trace s @ tr\<rparr>)"
      and p: "examined tr = []" "list_all (\<lambda>ev. \<not> is_prologue ev) tr"
        "r = Inr Break \<Longrightarrow> found_end fl tr"
        "r \<noteq> Inr Break \<Longrightarrow> fl = None \<and> list_all (\<lambda>ev. \<not> yields ev) tr"
    by auto
  show "\<exists>r fl tr. bind_io m ?f s = (r, s\<lparr>result_var := fl, trace := trace s @ tr\<rparr>)
     \<and> examined tr = [] \<and> list_all (\<lambda>ev. \<not> is_prologue ev) tr
     \<and> (if r = Inr Break then found_end fl tr
          else fl = None \<and> list_all (\<lambda>ev. \<not> yields ev) tr)"
  proof (cases r)
    case (Inl e)
    with m have "bind_io m ?f s = (Inl e, s\<lparr>result_var := fl, trace := trace s @ tr\<rparr>)"
      by (simp add: bind_io_def)
    with p Inl show ?thesis
      by (intro exI [of _ "Inl e"] exI [of _ fl] exI [of _ tr]) simp
  next
    case (Inr c)
    show ?thesis
    proof (cases "c = Break")
      case True
      with m Inr have "bind_io m ?f s = (Inr Break, s\<lparr>result_var := fl, trace := trace s @ tr\<rparr>)"
        by (simp add: bind_io_def return_io_def)
      with p Inr True show ?thesis
        by (intro exI [of _ "Inr Break"] exI [of _ fl] exI [of _ tr]) simp
    next
      case False
      with p Inr have fl: "fl = None" and ny: "list_all (\<lambda>ev. \<not> yields ev) tr" by auto
      have "result_var (s\<lparr>result_var := fl, trace := trace s @ tr\<rparr>) = None" using fl by simp
      from innerD [OF assms(2) this] obtain r' fl' tr'
        where f: "rest (s\<lparr>result_var := fl, trace := trace s @ tr\<rparr>)
                 = (r', s\<lparr>result_var := fl', trace := trace s @ tr @ tr'\<rparr>)"
          and q: "examined tr' = []" "list_all (\<lambda>ev. \<not> is_prologue ev) tr'"
            "r' = Inr Break \<Longrightarrow> found_end fl' tr'"
            "r' \<noteq> Inr Break \<Longrightarrow> fl' = None \<and> list_all (\<lambda>ev. \<not> yields ev) tr'"
        by auto
      from m Inr False f
      have "bind_io m ?f s = (r', s\<lparr>result_var := fl', trace := trace s @ (tr @ tr')\<rparr>)"
        by (simp add: bind_io_def)
      moreover have "examined (tr @ tr') = []" using p q by (simp add: examined_append)
      moreover have "list_all (\<lambda>ev. \<not> is_prologue ev) (tr @ tr')" using p q by simp
      moreover have "if r' = Inr Break then found_end fl' (tr @ tr')
          else fl' = None \<and> list_all (\<lambda>ev. \<not> yields ev) (tr @ tr')"
        using ny q by (auto intro: found_end_append)
      ultimately show ?thesis by blast
    qed
  qed
qed

lemma inner_if: "(b \<Longrightarrow> inner m) \<Longrightarrow> (\<not> b \<Longrightarrow> inner m') \<Longrightarrow> inner (if b then m else m')"
  by simp

lemma endswith_nonempty: "endswith x exts \<Longrightarrow> [] \<notin> set exts \<Longrightarrow> x \<noteq> []"
  by (auto simp: endswith_def list_ex_iff)

lemma str_in_nonempty: "str_in pat x \<Longrightarrow> pat \<noteq> [] \<Longrightarrow> x \<noteq> []"
  by (cases x) auto

lemmas inner_intros = inner_if inner_found inner_found_Some inner_return inner_break_if_found

lemma inner_video:
  "inner (bind_io (call_opt w (GetAttribute current VideoElement ''src'')) (\<lambda>src.
            if is_direct [''.mp4'', ''.mkv''] src
            then found ''Found video src link'' src
            else return_io Proceed))"
  by (intro inner_bind_only inner_intros only_intros)
     (simp_all add: plain_def found_messages_def)

lemma inner_button:
  "inner (bind_io (call_opt w (GetAttribute current DownloadButton ''href'')) (\<lambda>href.
            if is_direct [''.mp4'', ''.mkv''] href
            then found ''Found direct download button link'' href
            else return_io Proceed))"
  by (intro inner_bind_only inner_intros only_intros)
     (simp_all add: plain_def found_messages_def)

lemma inner_search_final_link: "inner (search_final_link w current)"
  unfolding search_final_link_def
  apply (rule inner_bind_only)
   apply (rule only_read_url, simp add: plain_def)
  apply (rule inner_if)
   apply (rule inner_found_Some)
    apply (auto dest: endswith_nonempty str_in_nonempty simp: found_messages_def)[2]
  apply (rule inner_bind_only)
   apply (rule only_call_nat, simp add: plain_def)
  apply (rule inner_bind_only)
   apply (intro only_intros; simp add: plain_def)
  apply (rule inner_bind_break)
   apply (rule inner_if)
    apply (rule inner_video)
   apply (rule inner_return, simp)
  apply (rule inner_bind_only)
   apply (rule only_call_nat, simp add: plain_def)
  apply (rule inner_bind_only)
   apply (intro only_intros; simp add: plain_def)
  apply (rule inner_bind_break)
   apply (rule inner_if)
    apply (rule inner_button)
   apply (rule inner_return, simp)
  apply (rule inner_break_if_found)
  done

lemma inner_use_element: "inner (use_element w page ctx server_name ident)"
  unfolding use_element_def
  apply (rule inner_bind_only)
   apply (rule only_log, simp add: plain_def found_messages_def)
  apply (rule inner_bind_only)
   apply (rule only_call_opt, simp add: plain_def)
  apply (rule inner_if)
   apply (rule inner_found, assumption, simp add: found_messages_def)
  apply (rule inner_bind_only)
   apply (rule only_log, simp add: plain_def found_messages_def)
  apply (rule inner_bind_only)
   apply (rule only_read_url, simp add: plain_def)
  apply (rule inner_bind_only)
   apply (intro only_intros; simp add: plain_def)
  apply (rule inner_bind_only)
   apply (rule only_read_new_page, simp add: plain_def)
  apply (rule inner_bind_only)
   apply (intro only_intros; simp add: plain_def found_messages_def)
  apply (rule inner_bind_only)
   apply (rule only_call_unit, simp add: plain_def)
  apply (rule inner_bind_only)
   apply (rule only_call_unit, simp add: plain_def)
  apply (rule inner_search_final_link)
  done

text \<open>One identifier: the visibility test, then a piece that examines nothing.\<close>

lemma try_identifier_spec:
  assumes "result_var s = None"
  shows "\<exists>c fl out tr.
     try_identifier w page ctx server_name ident s
       = (Inr c, s\<lparr>result_var := fl,
                    trace := trace s @ (IsVisible page (ServerElement ident), out) # tr\<rparr>)
     \<and> examined tr = [] \<and> list_all (\<lambda>ev. \<not> is_prologue ev) tr
     \<and> (c = Break \<longrightarrow> found_end fl tr)
     \<and> (c \<noteq> Break \<longrightarrow> fl = None \<and> list_all (\<lambda>ev. \<not> yields ev) tr)"
proof -
  let ?ev = "IsVisible page (ServerElement ident)"
  let ?rest = "\<lambda>visible. bind_io (if visible then use_element w page ctx server_name ident
                 else return_io Proceed) (\<lambda>c.
        if c = Break then return_io Break else break_if_found)"
  let ?h = "\<lambda>e. case e of
          PlaywrightTimeoutError \<Rightarrow>
            bind_io (log DEBUG ''Timeout finding/interacting with'' server_name) (\<lambda>_.
            return_io Proceed)
        | OtherException \<Rightarrow>
            bind_io (log WARNING ''Could not find/interact with'' server_name) (\<lambda>_.
            return_io (Proceed :: ctl))"
  have rest: "inner (?rest visible)" for visible
    by (intro inner_bind_break inner_if inner_use_element inner_return inner_break_if_found) simp
  have handler: "\<exists>lvl msg. h = (Log lvl msg server_name, Returned) \<and> lvl \<noteq> INFO
      \<and> ?h e s' = (Inr Proceed, s'\<lparr>trace := trace s' @ [h]\<rparr>)"
    if "h = (case e of PlaywrightTimeoutError \<Rightarrow> (Log DEBUG ''Timeout finding/interacting with'' server_name, Returned)
               | OtherException \<Rightarrow> (Log WARNING ''Could not find/interact with'' server_name, Returned))"
    for e h and s' :: "string option frame"
    using that by (cases e) (simp_all add: io_defs)
  show ?thesis
  proof (cases "raises w (length (trace s))")
    case (Some e)
    define h where "h = (case e of PlaywrightTimeoutError \<Rightarrow> (Log DEBUG ''Timeout finding/interacting with'' server_name, Returned)
               | OtherException \<Rightarrow> (Log WARNING ''Could not find/interact with'' server_name, Returned))"
    from handler [OF h_def] obtain lvl msg where h: "h = (Log lvl msg server_name, Returned)" "lvl \<noteq> INFO"
      and run: "\<And>s' :: string option frame. ?h e s' = (Inr Proceed, s'\<lparr>trace := trace s' @ [h]\<rparr>)"
      by (cases e) (auto simp: h_def io_defs)
    have "try_identifier w page ctx server_name ident s
        = (Inr Proceed, s\<lparr>result_var := None, trace := trace s @ (?ev, Raised e) # [h]\<rparr>)"
      using Some assms run [of "emit ?ev (Raised e) s"]
      by (simp add: try_identifier_def try_except_def bind_io_def call_bool_def emit_def)
    moreover have "examined [h] = []" "list_all (\<lambda>ev. \<not> is_prologue ev) [h]"
      "list_all (\<lambda>ev. \<not> yields ev) [h]"
      using h by (simp_all add: examined_Cons)
    ultimately show ?thesis by blast
  next
    case None
    let ?v = "bool_at w (length (trace s))"
    let ?s1 = "emit ?ev (RetBool ?v) s"
    have s1: "result_var ?s1 = None" using assms by (simp add: emit_def)
    from innerD [OF rest [of ?v] s1] obtain r fl tr
      where m: "?rest ?v ?s1 = (r, s\<lparr>result_var := fl, trace := trace s @ (?ev, RetBool ?v) # tr\<rparr>)"
        and p: "examined tr = []" "list_all (\<lambda>ev. \<not> is_prologue ev) tr"
          "r = Inr Break \<Longrightarrow> found_end fl tr"
          "r \<noteq> Inr Break \<Longrightarrow> fl = None \<and> list_all (\<lambda>ev. \<not> yields ev) tr"
      by (auto simp: emit_def)
    have body: "bind_io (call_bool w ?ev) ?rest s = ?rest ?v ?s1"
      using None by (simp add: bind_io_def call_bool_def)
    show ?thesis
    proof (cases r)
      case (Inr c)
      with m body have "try_identifier w page ctx server_name ident s
        = (Inr c, s\<lparr>result_var := fl, trace := trace s @ (?ev, RetBool ?v) # tr\<rparr>)"
        by (simp add: try_identifier_def try_except_def)
      with p Inr show ?thesis by auto
    next
      case (Inl e)
      define h where "h = (case e of PlaywrightTimeoutError \<Rightarrow> (Log DEBUG ''Timeout finding/interacting with'' server_name, Returned)
               | OtherException \<Rightarrow> (Log WARNING ''Could not find/interact with'' server_name, Returned))"
      from handler [OF h_def] obtain lvl msg where h: "h = (Log lvl msg server_name, Returned)" "lvl \<noteq> INFO"
        and run: "\<And>s' :: string option frame. ?h e s' = (Inr Proceed, s'\<lparr>trace := trace s' @ [h]\<rparr>)"
        by (cases e) (auto simp: h_def io_defs)
      from p Inl have fl: "fl = None" and ny: "list_all (\<lambda>ev. \<not> yields ev) tr" by auto
      have "try_identifier w page ctx server_name ident s
        = (Inr Proceed, s\<lparr>result_var := None, trace := trace s @ (?ev, RetBool ?v) # (tr @ [h])\<rparr>)"
        using m body Inl fl run [of "s\<lparr>result_var := fl, trace := trace s @ (?ev, RetBool ?v) # tr\<rparr>"]
        by (simp add: try_identifier_def try_except_def)
      moreover have "examined (tr @ [h]) = []" "list_all (\<lambda>ev. \<not> is_prologue ev) (tr @ [h])"
        "list_all (\<lambda>ev. \<not> yields ev) (tr @ [h])"
        using h p ny by (simp_all add: examined_append examined_Cons)
      ultimately show ?thesis by blast
    qed
  qed
qed

subsection \<open>The loops over identifiers and servers\<close>

lemma search_run_Nil: "search_run [] None []"
  by (simp add: search_run_def)

lemma search_run_more: "search_run ids fl tr \<Longrightarrow> fl \<noteq> None \<Longrightarrow> search_run (ids @ ids') fl tr"
  by (auto simp: search_run_def)

lemma search_run_append:
  assumes "search_run ids None tr" and "search_run ids' fl tr'"
  shows "search_run (ids @ ids') fl (tr @ tr')"
  using assms by (auto simp: search_run_def examined_append intro: found_end_append)

lemma search_run_one:
  assumes "examined tr = []" and "list_all (\<lambda>ev. \<not> is_prologue ev) tr"
    and "c = Break \<longrightarrow> found_end fl tr"
    and "c \<noteq> Break \<longrightarrow> fl = None \<and> list_all (\<lambda>ev. \<not> yields ev) tr"
  shows "search_run [ident] fl ((IsVisible page (ServerElement ident), out) # tr)"
proof (cases "c = Break")
  case True
  with assms have "found_end fl ([(IsVisible page (ServerElement ident), out)] @ tr)"
    by (intro found_end_append) simp_all
  with assms True show ?thesis
    by (auto simp: search_run_def examined_Cons dest: found_end_not_None)
next
  case False
  with assms show ?thesis by (simp add: search_run_def examined_Cons)
qed

lemma search_run_log:
  assumes "search_run ids fl tr" and "lvl \<noteq> INFO"
  shows "search_run ids fl ((Log lvl msg arg, Returned) # tr)"
proof -
  have "found_end fl ([(Log lvl msg arg, Returned)] @ tr)" if "found_end fl tr"
    using that assms(2) by (intro found_end_append) simp_all
  with assms show ?thesis
    by (auto simp: search_run_def examined_Cons)
qed

lemma for_identifiers_spec:
  "result_var s = None \<Longrightarrow>
   \<exists>fl tr. for_identifiers w page ctx server_name ids s
             = (Inr (), s\<lparr>result_var := fl, trace := trace s @ tr\<rparr>)
     \<and> search_run ids fl tr"
proof (induction ids arbitrary: s)
  case Nil
  then have "for_identifiers w page ctx server_name [] s
      = (Inr (), s\<lparr>result_var := None, trace := trace s @ []\<rparr>)"
    by (simp add: return_io_def)
  with search_run_Nil show ?case by blast
next
  case (Cons ident rest)
  from try_identifier_spec [OF Cons.prems, of w page ctx server_name ident]
  obtain c fl out tr where t: "try_identifier w page ctx server_name ident s
       = (Inr c, s\<lparr>result_var := fl,
                    trace := trace s @ (IsVisible page (ServerElement ident), out) # tr\<rparr>)"
    and p: "examined tr = []" "list_all (\<lambda>ev. \<not> is_prologue ev) tr"
      "c = Break \<longrightarrow> found_end fl tr"
      "c \<noteq> Break \<longrightarrow> fl = None \<and> list_all (\<lambda>ev. \<not> yields ev) tr"
    by blast
  let ?ev = "(IsVisible page (ServerElement ident), out)"
  let ?s1 = "s\<lparr>result_var := fl, trace := trace s @ ?ev # tr\<rparr>"
  have one: "search_run [ident] fl (?ev # tr)"
    using p by (rule search_run_one)
  show ?case
  proof (cases "c = Break")
    case True
    with t have "for_identifiers w page ctx server_name (ident # rest) s = (Inr (), ?s1)"
      by (simp add: bind_io_def return_io_def)
    moreover from True p have "fl \<noteq> None" by (auto dest: found_end_not_None)
    with one have "search_run ([ident] @ rest) fl (?ev # tr)" by (rule search_run_more)
    ultimately show ?thesis by auto
  next
    case False
    with p have fl: "fl = None" by simp
    then have "result_var ?s1 = None" by simp
    from Cons.IH [OF this] obtain fl' tr'
      where r: "for_identifiers w page ctx server_name rest ?s1
             = (Inr (), s\<lparr>result_var := fl', trace := trace s @ (?ev # tr) @ tr'\<rparr>)"
        and q: "search_run rest fl' tr'"
      by auto
    from t False r have "for_identifiers w page ctx server_name (ident # rest) s
        = (Inr (), s\<lparr>result_var := fl', trace := trace s @ (?ev # tr) @ tr'\<rparr>)"
      by (simp add: bind_io_def)
    moreover from one fl q have "search_run ([ident] @ rest) fl' ((?ev # tr) @ tr')"
      by (intro search_run_append) simp_all
    ultimately show ?thesis by auto
  qed
qed

lemma for_servers_spec:
  "result_var s = None \<Longrightarrow>
   \<exists>fl tr. for_servers w page ctx prefs s
             = (Inr (), s\<lparr>result_var := fl, trace := trace s @ tr\<rparr>)
     \<and> search_run (concat (map identifiers prefs)) fl tr"
proof (induction prefs arbitrary: s)
  case Nil
  then have "for_servers w page ctx [] s
      = (Inr (), s\<lparr>result_var := None, trace := trace s @ []\<rparr>)"
    by (simp add: return_io_def)
  moreover have "search_run (concat (map identifiers [])) None []"
    by (simp add: search_run_Nil)
  ultimately show ?case by blast
next
  case (Cons pref rest)
  let ?ev = "(Log DEBUG ''Trying server'' (name pref), Returned)"
  let ?s0 = "s\<lparr>trace := trace s @ [?ev]\<rparr>"
  have "result_var ?s0 = None" using Cons.prems by simp
  from for_identifiers_spec [OF this, of w page ctx "name pref" "identifiers pref"]
  obtain fl tr where i: "for_identifiers w page ctx (name pref) (identifiers pref) ?s0
             = (Inr (), s\<lparr>result_var := fl, trace := trace s @ ?ev # tr\<rparr>)"
    and p: "search_run (identifiers pref) fl tr"
    by auto
  let ?s1 = "s\<lparr>result_var := fl, trace := trace s @ ?ev # tr\<rparr>"
  have p': "search_run (identifiers pref) fl (?ev # tr)"
    using p by (rule search_run_log) simp
  show ?case
  proof (cases fl)
    case (Some l)
    with p have "l \<noteq> []" by (auto simp: search_run_def found_end_def)
    with i Some have "for_servers w page ctx (pref # rest) s = (Inr (), ?s1)"
      by (simp add: bind_io_def log_def emit_def break_if_found_def gets_def return_io_def)
    moreover from p' Some
    have "search_run (identifiers pref @ concat (map identifiers rest)) fl (?ev # tr)"
      by (intro search_run_more) simp_all
    ultimately show ?thesis by auto
  next
    case None
    then have "result_var ?s1 = None" by simp
    from Cons.IH [OF this] obtain fl' tr'
      where r: "for_servers w page ctx rest ?s1
             = (Inr (), s\<lparr>result_var := fl', trace := trace s @ (?ev # tr) @ tr'\<rparr>)"
        and q: "search_run (concat (map identifiers rest)) fl' tr'"
      by auto
    from i None r have "for_servers w page ctx (pref # rest) s
        = (Inr (), s\<lparr>result_var := fl', trace := trace s @ (?ev # tr) @ tr'\<rparr>)"
      by (simp add: bind_io_def log_def emit_def break_if_found_def gets_def return_io_def)
    moreover from p' None q
    have "search_run (identifiers pref @ concat (map identifiers rest)) fl' ((?ev # tr) @ tr')"
      by (intro search_run_append) simp_all
    ultimately show ?thesis by auto
  qed
qed

subsection \<open>Acquisition and release\<close>

lemma acquire_spec:
  "\<exists>P. list_all is_prologue P \<and>
     ((\<exists>e. acquire w None s = (Inl e, s\<lparr>trace := trace s @ P\<rparr>) \<and> list_ex raised P)
      \<or> (\<exists>pw b c p. acquire w None s
            = (Inr (c, p), s\<lparr>playwright_var := Some pw, browser_var := Some b,
                              context_var := Some c, trace := trace s @ P\<rparr>)
          \<and> list_all (\<lambda>ev. \<not> raised ev) P))"
proof -
  let ?n = "length (trace s)"
  consider (a) e where "raises w ?n = Some e"
    | (b) e where "raises w ?n = None" "raises w (Suc ?n) = Some e"
    | (c) e where "raises w ?n = None" "raises w (Suc ?n) = None" "raises w (Suc (Suc ?n)) = Some e"
    | (d) e where "raises w ?n = None" "raises w (Suc ?n) = None" "raises w (Suc (Suc ?n)) = None"
              "raises w (Suc (Suc (Suc ?n))) = Some e"
    | (e) e where "raises w ?n = None" "raises w (Suc ?n) = None" "raises w (Suc (Suc ?n)) = None"
              "raises w (Suc (Suc (Suc ?n))) = None" "raises w (Suc (Suc (Suc (Suc ?n)))) = Some e"
    | (f) e where "raises w ?n = None" "raises w (Suc ?n) = None" "raises w (Suc (Suc ?n)) = None"
              "raises w (Suc (Suc (Suc ?n))) = None" "raises w (Suc (Suc (Suc (Suc ?n)))) = None"
              "raises w (Suc (Suc (Suc (Suc (Suc ?n))))) = Some e"
    | (g) "raises w ?n = None" "raises w (Suc ?n) = None" "raises w (Suc (Suc ?n)) = None"
              "raises w (Suc (Suc (Suc ?n))) = None" "raises w (Suc (Suc (Suc (Suc ?n)))) = None"
              "raises w (Suc (Suc (Suc (Suc (Suc ?n))))) = None"
    by (metis option.exhaust)
  then show ?thesis
  proof cases
    case a
    then show ?thesis
      by (intro exI [of _ "[(PwStart, Raised e)]"])
         (simp add: acquire_def get_playwright_page_def io_defs)
  next
    case b
    then show ?thesis
      by (intro exI [of _ "[(PwStart, RetHandle ?n), (Launch ?n, Raised e)]"])
         (simp add: acquire_def get_playwright_page_def io_defs)
  next
    case c
    then show ?thesis
      by (intro exI [of _ "[(PwStart, RetHandle ?n), (Launch ?n, RetHandle (Suc ?n)),
                            (NewContext (Suc ?n), Raised e)]"])
         (simp add: acquire_def get_playwright_page_def io_defs)
  next
    case d
    then show ?thesis
      by (intro exI [of _ "[(PwStart, RetHandle ?n), (Launch ?n, RetHandle (Suc ?n)),
                            (NewContext (Suc ?n), RetHandle (Suc (Suc ?n))),
                            (Route (Suc (Suc ?n)), Raised e)]"])
         (simp add: acquire_def get_playwright_page_def io_defs)
  next
    case e
    then show ?thesis
      by (intro exI [of _ "[(PwStart, RetHandle ?n), (Launch ?n, RetHandle (Suc ?n)),
                            (NewContext (Suc ?n), RetHandle (Suc (Suc ?n))),
                            (Route (Suc (Suc ?n)), Returned),
                            (OnPage (Suc (Suc ?n)), Raised e)]"])
         (simp add: acquire_def get_playwright_page_def io_defs)
  next
    case f
    then show ?thesis
      by (intro exI [of _ "[(PwStart, RetHandle ?n), (Launch ?n, RetHandle (Suc ?n)),
                            (NewContext (Suc ?n), RetHandle (Suc (Suc ?n))),
                            (Route (Suc (Suc ?n)), Returned),
                            (OnPage (Suc (Suc ?n)), Returned),
                            (NewPage (Suc (Suc ?n)), Raised e)]"])
         (simp add: acquire_def get_playwright_page_def io_defs)
  next
    case g
    let ?P = "[(PwStart, RetHandle ?n), (Launch ?n, RetHandle (Suc ?n)),
               (NewContext (Suc ?n), RetHandle (Suc (Suc ?n))),
               (Route (Suc (Suc ?n)), Returned),
               (OnPage (Suc (Suc ?n)), Returned),
               (NewPage (Suc (Suc ?n)), RetHandle (Suc (Suc (Suc (Suc (Suc ?n))))))]"
    from g have "acquire w None s
        = (Inr (Suc (Suc ?n), Suc (Suc (Suc (Suc (Suc ?n))))),
           s\<lparr>playwright_var := Some ?n, browser_var := Some (Suc ?n),
             context_var := Some (Suc (Suc ?n)), trace := trace s @ ?P\<rparr>)"
      by (simp add: acquire_def get_playwright_page_def io_defs)
    moreover have "list_all is_prologue ?P" "list_all (\<lambda>ev. \<not> raised ev) ?P"
      by simp_all
    ultimately show ?thesis by blast
  qed
qed

lemma close_spec:
  "\<exists>R. close_playwright_resources w (Some b) (Some c) s = (Inr (), s\<lparr>trace := trace s @ R\<rparr>)
     \<and> list_all closing R"
proof -
  let ?n = "length (trace s)"
  let ?c = "case raises w ?n of None \<Rightarrow> [(ContextClose c, Returned)]
            | Some e \<Rightarrow> [(ContextClose c, Raised e), (Log ERROR ''Error closing context'' [], Returned)]"
  let ?m = "?n + length ?c"
  let ?b = "case raises w ?m of None \<Rightarrow> [(BrowserClose b, Returned)]
            | Some e \<Rightarrow> [(BrowserClose b, Raised e), (Log ERROR ''Error closing browser'' [], Returned)]"
  show ?thesis
    by (intro exI [of _ "?c @ ?b"])
       (auto simp: close_playwright_resources_def io_defs split: option.splits)
qed

lemma release_spec:
  assumes "playwright_var s = None \<or> browser_var s \<noteq> None"
    and "browser_var s \<noteq> None \<longrightarrow> context_var s \<noteq> None"
  shows "\<exists>R. release w s = (Inr (), s\<lparr>trace := trace s @ R\<rparr>) \<and> list_all closing R"
proof (cases "browser_var s")
  case None
  with assms have "release w s = (Inr (), s\<lparr>trace := trace s @ []\<rparr>)"
    by (simp add: release_def close_if_open_def io_defs)
  then show ?thesis by (intro exI [of _ "[]"]) simp
next
  case (Some b)
  with assms obtain c where c: "context_var s = Some c" by auto
  from close_spec [of w b c s] obtain R
    where "close_playwright_resources w (Some b) (Some c) s = (Inr (), s\<lparr>trace := trace s @ R\<rparr>)"
      "list_all closing R" by blast
  with Some c have "release w s = (Inr (), s\<lparr>trace := trace s @ R\<rparr>)" "list_all closing R"
    by (auto simp: release_def close_if_open_def bind_io_def gets_def return_io_def split: option.splits)
  then show ?thesis by blast
qed

subsection \<open>Running the combinators\<close>

lemma bind_Inl: "m s = (Inl e, s1) \<Longrightarrow> bind_io m f s = (Inl e, s1)"
  by (simp add: bind_io_def)

lemma bind_Inr: "m s = (Inr x, s1) \<Longrightarrow> bind_io m f s = f x s1"
  by (simp add: bind_io_def)

lemma try_except_Inl: "m s = (Inl e, s1) \<Longrightarrow> try_except m h s = h e s1"
  by (simp add: try_except_def)

lemma try_except_Inr: "m s = (Inr x, s1) \<Longrightarrow> try_except m h s = (Inr x, s1)"
  by (simp add: try_except_def)

lemma try_finally_run: "m s = (r, s1) \<Longrightarrow> f s1 = (Inr u, s2) \<Longrightarrow> try_finally m f s = (r, s2)"
  by (simp add: try_finally_def)

lemma call_unit_cases:
  obtains e where "call_unit w c s = (Inl e, s\<lparr>trace := trace s @ [(c, Raised e)]\<rparr>)"
  | "call_unit w c s = (Inr (), s\<lparr>trace := trace s @ [(c, Returned)]\<rparr>)"
  by (cases "raises w (length (trace s))") (auto simp: call_unit_def emit_def)

subsection \<open>Acquisition, navigation and dwell\<close>

lemma prologue_spec:
  fixes s :: "'r frame" and k :: "handle \<Rightarrow> handle \<Rightarrow> ('r, 'a) io" and w :: world and u :: string
  assumes "playwright_var s = None" and "browser_var s = None"
  defines "pro \<equiv> bind_io (acquire w None) (\<lambda>(ctx, page).
           bind_io (call_unit w (Goto page u)) (\<lambda>_.
           bind_io (call_unit w (WaitForTimeout page 7000)) (\<lambda>_. k ctx page)))"
  shows "\<exists>P s1. list_all is_prologue P \<and> trace s1 = trace s @ P \<and> result_var s1 = result_var s
     \<and> (playwright_var s1 = None \<or> browser_var s1 \<noteq> None)
     \<and> (browser_var s1 \<noteq> None \<longrightarrow> context_var s1 \<noteq> None)
     \<and> ((\<exists>e. list_ex raised P \<and> pro s = (Inl e, s1))
        \<or> (\<exists>c p. list_all (\<lambda>ev. \<not> raised ev) P \<and> pro s = k c p s1))"
proof -
  from acquire_spec [of w s] obtain P where P: "list_all is_prologue P"
    and alt: "(\<exists>e. acquire w None s = (Inl e, s\<lparr>trace := trace s @ P\<rparr>) \<and> list_ex raised P)
      \<or> (\<exists>pw b c p. acquire w None s
            = (Inr (c, p), s\<lparr>playwright_var := Some pw, browser_var := Some b,
                              context_var := Some c, trace := trace s @ P\<rparr>)
          \<and> list_all (\<lambda>ev. \<not> raised ev) P)"
    by blast
  from alt show ?thesis
  proof (elim disjE exE conjE)
    fix e
    assume a: "acquire w None s = (Inl e, s\<lparr>trace := trace s @ P\<rparr>)" and r: "list_ex raised P"
    have "pro s = (Inl e, s\<lparr>trace := trace s @ P\<rparr>)"
      unfolding pro_def using a by (simp add: bind_io_def)
    with P r assms(1,2) show ?thesis
      by (intro exI [of _ P] exI [of _ "s\<lparr>trace := trace s @ P\<rparr>"]) auto
  next
    fix pw b c p
    assume a: "acquire w None s
            = (Inr (c, p), s\<lparr>playwright_var := Some pw, browser_var := Some b,
                              context_var := Some c, trace := trace s @ P\<rparr>)"
      and nr: "list_all (\<lambda>ev. \<not> raised ev) P"
    let ?s1 = "s\<lparr>playwright_var := Some pw, browser_var := Some b,
                 context_var := Some c, trace := trace s @ P\<rparr>"
    let ?after = "bind_io (call_unit w (Goto p u)) (\<lambda>_.
           bind_io (call_unit w (WaitForTimeout p 7000)) (\<lambda>_. k c p))"
    have pro: "pro s = ?after ?s1"
      unfolding pro_def using a by (simp add: bind_io_def)
    show ?thesis
    proof (rule call_unit_cases [of w "Goto p u" ?s1])
      fix e
      assume g: "call_unit w (Goto p u) ?s1 = (Inl e, ?s1\<lparr>trace := trace ?s1 @ [(Goto p u, Raised e)]\<rparr>)"
      have "pro s = (Inl e, ?s1\<lparr>trace := trace ?s1 @ [(Goto p u, Raised e)]\<rparr>)"
        unfolding pro using g by (simp add: bind_io_def)
      with P show ?thesis
        by (intro exI [of _ "P @ [(Goto p u, Raised e)]"]
              exI [of _ "?s1\<lparr>trace := trace ?s1 @ [(Goto p u, Raised e)]\<rparr>"]) auto
    next
      let ?s2 = "?s1\<lparr>trace := trace ?s1 @ [(Goto p u, Returned)]\<rparr>"
      assume g: "call_unit w (Goto p u) ?s1 = (Inr (), ?s2)"
      have pro2: "pro s = bind_io (call_unit w (WaitForTimeout p 7000)) (\<lambda>_. k c p) ?s2"
        unfolding pro using g by (simp add: bind_io_def)
      show ?thesis
      proof (rule call_unit_cases [of w "WaitForTimeout p 7000" ?s2])
        fix e
        let ?s3 = "?s2\<lparr>trace := trace ?s2 @ [(WaitForTimeout p 7000, Raised e)]\<rparr>"
        assume t: "call_unit w (WaitForTimeout p 7000) ?s2 = (Inl e, ?s3)"
        have "pro s = (Inl e, ?s3)"
          unfolding pro2 using t by (simp add: bind_io_def)
        with P show ?thesis
          by (intro exI [of _ "P @ [(Goto p u, Returned), (WaitForTimeout p 7000, Raised e)]"]
                exI [of _ ?s3]) auto
      next
        let ?s3 = "?s2\<lparr>trace := trace ?s2 @ [(WaitForTimeout p 7000, Returned)]\<rparr>"
        assume t: "call_unit w (WaitForTimeout p 7000) ?s2 = (Inr (), ?s3)"
        have "pro s = k c p ?s3"
          unfolding pro2 using t by (simp add: bind_io_def)
        with P nr show ?thesis
          by (intro exI [of _ "P @ [(Goto p u, Returned), (WaitForTimeout p 7000, Returned)]"]
                exI [of _ ?s3]) auto
      qed
    qed
  qed
qed

subsection \<open>The shape of a server resolution\<close>

lemma search_run_truthy: "search_run ids fl tr \<Longrightarrow> truthy fl \<longleftrightarrow> fl \<noteq> None"
  by (cases fl) (auto simp: search_run_def found_end_def)

lemma resolve_run:
  fixes w :: world and trigger site :: string
  defines "run \<equiv> get_final_vcloud_download_link w trigger site"
  defines "dummy \<equiv> str_in ''dummy-movie-site'' site \<or> str_in ''example.com'' site"
  defines "link \<equiv> trigger @ ''/final_vcloud_link_server1_dummy.mp4''"
  shows "\<exists>P R. list_all is_prologue P \<and> list_all closing R \<and>
     ((list_ex raised P \<and> fst run = Inr None
        \<and> (\<exists>m. trace (snd run) =
              (Log INFO ''Getting final VCloud link from'' trigger, Returned) # P
              @ (Log ERROR m trigger, Returned) # R
              @ [(Log WARNING ''Could not retrieve a VCloud download link from'' trigger, Returned)]))
      \<or> (list_all (\<lambda>ev. \<not> raised ev) P
        \<and> (\<exists>S fl res F lst. search_run all_identifiers fl S \<and> fst run = Inr res
              \<and> trace (snd run) =
                  (Log INFO ''Getting final VCloud link from'' trigger, Returned) # P
                  @ (Log WARNING ''Using DUMMY VCloud link logic for'' trigger, Returned) # S
                  @ F @ R @ [lst]
              \<and> (if fl = None \<and> dummy
                  then F = [(Sleep 100, Returned), (Log WARNING ''Using DUMMY final link'' link, Returned)]
                       \<and> res = Some link
                  else F = [] \<and> res = fl)
              \<and> (\<exists>lvl m a. lst = (Log lvl m a, Returned) \<and> m \<notin> set found_messages)
              \<and> (\<exists>c p s. result_var s = None
                    \<and> trace s = (Log INFO ''Getting final VCloud link from'' trigger, Returned) # P
                         @ [(Log WARNING ''Using DUMMY VCloud link logic for'' trigger, Returned)]
                    \<and> for_servers w p c server_priority s
                        = (Inr (), s\<lparr>result_var := fl, trace := trace s @ S\<rparr>)))))"
proof -
  let ?L0 = "(Log INFO ''Getting final VCloud link from'' trigger, Returned)"
  let ?Lw = "(Log WARNING ''Using DUMMY VCloud link logic for'' trigger, Returned)"
  let ?Lf = "(Log WARNING ''Could not retrieve a VCloud download link from'' trigger, Returned)"
  define k :: "handle \<Rightarrow> handle \<Rightarrow> (string option, unit) io" where
    "k = (\<lambda>ctx page.
           bind_io (log WARNING ''Using DUMMY VCloud link logic for'' trigger) (\<lambda>_.
           bind_io (for_servers w page ctx server_priority) (\<lambda>_.
           bind_io (gets result_var) (\<lambda>final_link.
           if \<not> truthy final_link
              \<and> (str_in ''dummy-movie-site'' site \<or> str_in ''example.com'' site)
           then
             bind_io (sleep 100) (\<lambda>_.
             bind_io (modify (\<lambda>s. s\<lparr>result_var :=
                        Some (trigger @ ''/final_vcloud_link_server1_dummy.mp4'')\<rparr>)) (\<lambda>_.
             log WARNING ''Using DUMMY final link''
                 (trigger @ ''/final_vcloud_link_server1_dummy.mp4'')))
           else return_io ()))))"
  define body where "body = bind_io (acquire w None) (\<lambda>(ctx, page).
           bind_io (call_unit w (Goto page trigger)) (\<lambda>_.
           bind_io (call_unit w (WaitForTimeout page 7000)) (\<lambda>_. k ctx page)))"
  define h :: "exn \<Rightarrow> (string option, unit) io" where "h = (\<lambda>e. case e of
             PlaywrightTimeoutError \<Rightarrow>
               log ERROR ''Timeout getting final VCloud link from'' trigger
           | OtherException \<Rightarrow>
               log ERROR ''Error getting final VCloud link from'' trigger)"
  define tail :: "(string option, string option) io" where "tail =
     bind_io (gets result_var) (\<lambda>final_link.
     bind_io (if truthy final_link
              then log INFO ''Final VCloud download link''
                     (case final_link of Some l \<Rightarrow> l | None \<Rightarrow> [])
              else log WARNING ''Could not retrieve a VCloud download link from'' trigger) (\<lambda>_.
     gets result_var))"
  define s0 :: "string option frame" where "s0 = (entry None)\<lparr>trace := [?L0]\<rparr>"
  have run: "run = bind_io (try_finally (try_except body h) (release w)) (\<lambda>_. tail) s0"
    unfolding run_def get_final_vcloud_download_link_def body_def k_def h_def tail_def s0_def
    by (simp add: bind_io_def log_def emit_def entry_def)
  have s0: "playwright_var s0 = None" "browser_var s0 = None" "result_var s0 = None"
    "trace s0 = [?L0]"
    by (simp_all add: s0_def entry_def)
  have hrun: "\<exists>m. h e s = (Inr (), s\<lparr>trace := trace s @ [(Log ERROR m trigger, Returned)]\<rparr>)"
    for e and s :: "string option frame"
  proof (cases e)
    case PlaywrightTimeoutError
    then show ?thesis
      by (intro exI [of _ "''Timeout getting final VCloud link from''"])
         (simp add: h_def log_def emit_def)
  next
    case OtherException
    then show ?thesis
      by (intro exI [of _ "''Error getting final VCloud link from''"])
         (simp add: h_def log_def emit_def)
  qed
  have tailrun: "\<exists>lvl m a. m \<notin> set found_messages
      \<and> tail s = (Inr (result_var s), s\<lparr>trace := trace s @ [(Log lvl m a, Returned)]\<rparr>)
      \<and> (result_var s = None \<longrightarrow> (Log lvl m a, Returned) = ?Lf)"
    for s :: "string option frame"
  proof (cases "truthy (result_var s)")
    case True
    then show ?thesis
      by (intro exI [of _ INFO] exI [of _ "''Final VCloud download link''"]
            exI [of _ "case result_var s of Some l \<Rightarrow> l | None \<Rightarrow> []"])
         (cases "result_var s"; simp add: tail_def bind_io_def gets_def log_def emit_def found_messages_def)
  next
    case False
    then show ?thesis
      by (intro exI [of _ WARNING]
            exI [of _ "''Could not retrieve a VCloud download link from''"] exI [of _ trigger])
         (simp add: tail_def bind_io_def gets_def log_def emit_def found_messages_def)
  qed
  from prologue_spec [OF s0(1,2), of w trigger k]
  obtain P s1 where P: "list_all is_prologue P" and s1: "trace s1 = trace s0 @ P"
    "result_var s1 = result_var s0" "playwright_var s1 = None \<or> browser_var s1 \<noteq> None"
    "browser_var s1 \<noteq> None \<longrightarrow> context_var s1 \<noteq> None"
    and alt: "(\<exists>e. list_ex raised P \<and> body s0 = (Inl e, s1))
        \<or> (\<exists>c p. list_all (\<lambda>ev. \<not> raised ev) P \<and> body s0 = k c p s1)"
    unfolding body_def by blast
  from alt show ?thesis
  proof (elim disjE exE conjE)
    fix e
    assume r: "list_ex raised P" and b: "body s0 = (Inl e, s1)"
    from hrun [of e s1] obtain m
      where h: "h e s1 = (Inr (), s1\<lparr>trace := trace s1 @ [(Log ERROR m trigger, Returned)]\<rparr>)"
      by blast
    let ?s2 = "s1\<lparr>trace := trace s1 @ [(Log ERROR m trigger, Returned)]\<rparr>"
    have te: "try_except body h s0 = (Inr (), ?s2)"
      using b h by (simp add: try_except_def)
    from s1 have "playwright_var ?s2 = None \<or> browser_var ?s2 \<noteq> None"
      "browser_var ?s2 \<noteq> None \<longrightarrow> context_var ?s2 \<noteq> None" by simp_all
    from release_spec [OF this, of w] obtain R
      where rel: "release w ?s2 = (Inr (), ?s2\<lparr>trace := trace ?s2 @ R\<rparr>)" and R: "list_all closing R"
      by blast
    let ?s3 = "?s2\<lparr>trace := trace ?s2 @ R\<rparr>"
    have tf: "try_finally (try_except body h) (release w) s0 = (Inr (), ?s3)"
      using te rel by (rule try_finally_run)
    have "result_var ?s3 = None" using s1 s0 by simp
    with tailrun [of ?s3]
    have tl: "tail ?s3 = (Inr None, ?s3\<lparr>trace := trace ?s3 @ [?Lf]\<rparr>)"
      by auto
    have "run = (Inr None, ?s3\<lparr>trace := trace ?s3 @ [?Lf]\<rparr>)"
      unfolding run using tf tl by (simp add: bind_io_def)
    then have "fst run = Inr None"
      "trace (snd run) = ?L0 # P @ (Log ERROR m trigger, Returned) # R @ [?Lf]"
      using s1 s0 by simp_all
    with P R r show ?thesis by blast
  next
    fix c p
    assume nr: "list_all (\<lambda>ev. \<not> raised ev) P" and b: "body s0 = k c p s1"
    let ?s1' = "s1\<lparr>trace := trace s1 @ [?Lw]\<rparr>"
    have "result_var ?s1' = None" using s1 s0 by simp
    from for_servers_spec [OF this, of w p c server_priority]
    obtain fl S where fs: "for_servers w p c server_priority ?s1'
             = (Inr (), s1\<lparr>result_var := fl, trace := trace s1 @ ?Lw # S\<rparr>)"
      and S: "search_run all_identifiers fl S"
      by (auto simp: all_identifiers_def)
    let ?s2 = "s1\<lparr>result_var := fl, trace := trace s1 @ ?Lw # S\<rparr>"
    define F where "F = (if fl = None \<and> dummy
          then [(Sleep 100, Returned), (Log WARNING ''Using DUMMY final link'' link, Returned)]
          else [])"
    define res where "res = (if fl = None \<and> dummy then Some link else fl)"
    let ?s3 = "s1\<lparr>result_var := res, trace := trace s1 @ ?Lw # S @ F\<rparr>"
    have kk: "k c p s1 = (Inr (), ?s3)"
      using fs search_run_truthy [OF S]
      by (simp add: k_def bind_io_def log_def emit_def gets_def sleep_def modify_def
            return_io_def F_def res_def dummy_def link_def)
    have te: "try_except body h s0 = (Inr (), ?s3)"
      using b kk by (simp add: try_except_def)
    from s1 have "playwright_var ?s3 = None \<or> browser_var ?s3 \<noteq> None"
      "browser_var ?s3 \<noteq> None \<longrightarrow> context_var ?s3 \<noteq> None" by simp_all
    from release_spec [OF this, of w] obtain R
      where rel: "release w ?s3 = (Inr (), ?s3\<lparr>trace := trace ?s3 @ R\<rparr>)" and R: "list_all closing R"
      by blast
    let ?s4 = "?s3\<lparr>trace := trace ?s3 @ R\<rparr>"
    have tf: "try_finally (try_except body h) (release w) s0 = (Inr (), ?s4)"
      using te rel by (rule try_finally_run)
    from tailrun [of ?s4] obtain lvl m a where lst: "m \<notin> set found_messages"
      and tl: "tail ?s4 = (Inr res, ?s4\<lparr>trace := trace ?s4 @ [(Log lvl m a, Returned)]\<rparr>)"
      by auto
    have "run = (Inr res, ?s4\<lparr>trace := trace ?s4 @ [(Log lvl m a, Returned)]\<rparr>)"
      unfolding run using tf tl by (simp add: bind_io_def)
    then have "fst run = Inr res"
      "trace (snd run) = ?L0 # P @ ?Lw # S @ F @ R @ [(Log lvl m a, Returned)]"
      using s1 s0 by simp_all
    moreover have "if fl = None \<and> dummy
                  then F = [(Sleep 100, Returned), (Log WARNING ''Using DUMMY final link'' link, Returned)]
                       \<and> res = Some link
                  else F = [] \<and> res = fl"
      by (simp add: F_def res_def)
    moreover have "\<exists>c p s. result_var s = None
                    \<and> trace s = ?L0 # P @ [?Lw]
                    \<and> for_servers w p c server_priority s
                        = (Inr (), s\<lparr>result_var := fl, trace := trace s @ S\<rparr>)"
      using fs s1 s0 by (intro exI [of _ c] exI [of _ p] exI [of _ ?s1']) simp
    ultimately show ?thesis using P R nr S lst by blast
  qed
qed

lemma resolve_shape:
  fixes w :: world and trigger site :: string
  defines "run \<equiv> get_final_vcloud_download_link w trigger site"
  defines "dummy \<equiv> str_in ''dummy-movie-site'' site \<or> str_in ''example.com'' site"
  defines "link \<equiv> trigger @ ''/final_vcloud_link_server1_dummy.mp4''"
  shows "\<exists>P R. list_all is_prologue P \<and> list_all closing R \<and>
     ((list_ex raised P \<and> fst run = Inr None
        \<and> (\<exists>m. trace (snd run) =
              (Log INFO ''Getting final VCloud link from'' trigger, Returned) # P
              @ (Log ERROR m trigger, Returned) # R
              @ [(Log WARNING ''Could not retrieve a VCloud download link from'' trigger, Returned)]))
      \<or> (list_all (\<lambda>ev. \<not> raised ev) P
        \<and> (\<exists>S fl res F lst. search_run all_identifiers fl S \<and> fst run = Inr res
              \<and> trace (snd run) =
                  (Log INFO ''Getting final VCloud link from'' trigger, Returned) # P
                  @ (Log WARNING ''Using DUMMY VCloud link logic for'' trigger, Returned) # S
                  @ F @ R @ [lst]
              \<and> (if fl = None \<and> dummy
                  then F = [(Sleep 100, Returned), (Log WARNING ''Using DUMMY final link'' link, Returned)]
                       \<and> res = Some link
                  else F = [] \<and> res = fl)
              \<and> (\<exists>lvl m a. lst = (Log lvl m a, Returned) \<and> m \<notin> set found_messages))))"
proof -
  from resolve_run [of w trigger site]
  obtain P R where P: "list_all is_prologue P" "list_all closing R"
    and alt: "(list_ex raised P \<and> fst run = Inr None
        \<and> (\<exists>m. trace (snd run) =
              (Log INFO ''Getting final VCloud link from'' trigger, Returned) # P
              @ (Log ERROR m trigger, Returned) # R
              @ [(Log WARNING ''Could not retrieve a VCloud download link from'' trigger, Returned)]))
      \<or> (list_all (\<lambda>ev. \<not> raised ev) P
        \<and> (\<exists>S fl res F lst. search_run all_identifiers fl S \<and> fst run = Inr res
              \<and> trace (snd run) =
                  (Log INFO ''Getting final VCloud link from'' trigger, Returned) # P
                  @ (Log WARNING ''Using DUMMY VCloud link logic for'' trigger, Returned) # S
                  @ F @ R @ [lst]
              \<and> (if fl = None \<and> dummy
                  then F = [(Sleep 100, Returned), (Log WARNING ''Using DUMMY final link'' link, Returned)]
                       \<and> res = Some link
                  else F = [] \<and> res = fl)
              \<and> (\<exists>lvl m a. lst = (Log lvl m a, Returned) \<and> m \<notin> set found_messages)))"
    unfolding run_def dummy_def link_def by blast
  then show ?thesis by blast
qed

subsection \<open>Priority order of the server search\<close>

lemma prologue_inert: "is_prologue ev \<Longrightarrow> examines ev = None \<and> \<not> yields ev"
  by (cases ev rule: is_prologue.cases) simp_all

lemma closing_inert: "closing ev \<Longrightarrow> examines ev = None \<and> \<not> yields ev \<and> \<not> is_prologue ev"
  by (cases ev rule: closing.cases) auto

lemma examined_inert: "list_all (\<lambda>ev. examines ev = None) tr \<Longrightarrow> examined tr = []"
  by (induction tr) (simp_all add: examined_Cons)

lemma examined_prologue: "list_all is_prologue P \<Longrightarrow> examined P = []"
  by (rule examined_inert) (auto simp: list_all_iff dest: prologue_inert)

lemma examined_closing: "list_all closing R \<Longrightarrow> examined R = []"
  by (rule examined_inert) (auto simp: list_all_iff dest: closing_inert)

lemma no_yield_prologue: "list_all is_prologue P \<Longrightarrow> list_all (\<lambda>ev. \<not> yields ev) P"
  by (auto simp: list_all_iff dest: prologue_inert)

lemma no_yield_closing: "list_all closing R \<Longrightarrow> list_all (\<lambda>ev. \<not> yields ev) R"
  by (auto simp: list_all_iff dest: closing_inert)

lemma dropWhile_all: "list_all P xs \<Longrightarrow> dropWhile P xs = []"
  by (induction xs) simp_all

lemma dropWhile_hit: "list_all P xs \<Longrightarrow> \<not> P y \<Longrightarrow> dropWhile P (xs @ y # ys) = y # ys"
  by (induction xs) simp_all

lemma all_identifiers_eq:
  "all_identifiers =
     [Literal ''Server One'', Literal ''VCloud Server 1'', Literal ''server-one-button'',
      Pattern (''server'' @ [CHR 0x5C] @ ''s*1''),
      Literal ''FSL Server'', Literal ''Fast Server Link'', Literal ''fsl-server-link'',
      Pattern ''fsl'',
      Literal ''10 Gbps Server'', Literal ''10Gbps Speed'', Literal ''high-speed-server'',
      Pattern (''10'' @ [CHR 0x5C] @ ''s*gbps'')]"
  by (simp add: all_identifiers_def server_priority_def)

lemma start_log_no_yield: "''Getting final VCloud link from'' \<notin> set found_messages"
  by (simp add: found_messages_def)

lemmas resolve_defs = get_final_vcloud_download_link_def try_identifier_def use_element_def
  search_final_link_def found_def break_if_found_def server_priority_def endswith_def
  suffix_to_prefix

section \<open>A usable link ends the server search\<close>

subsection \<open>Offers along a trace\<close>

lemma offered_from_append:
  "offered_from a (tr @ tr') =
     offered_from a tr @ offered_from (if tr = [] then a else settled (last tr)) tr'"
  by (induction tr arbitrary: a) (auto split: option.splits)

lemma offered_snoc:
  "offered (tr @ [ev]) =
     offered tr @ (case offers (settled_end tr) ev of None \<Rightarrow> [] | Some l \<Rightarrow> [l])"
  by (simp add: offered_def offered_from_append settled_end_def split: option.splits)

lemma settled_end_snoc [simp]: "settled_end (tr @ [ev]) = settled ev"
  by (simp add: settled_end_def)

lemma offered_Nil [simp]: "offered [] = []"
  by (simp add: offered_def)

lemma offered_from_inert: "list_all inert tr \<Longrightarrow> offered_from a tr = []"
  by (induction tr arbitrary: a) (auto simp: inert_def)

lemma offered_append_inert: "list_all inert tr' \<Longrightarrow> offered (tr @ tr') = offered tr"
  by (simp add: offered_def offered_from_append offered_from_inert)

lemma examined_inert2: "list_all inert tr \<Longrightarrow> examined tr = []"
  by (rule examined_inert) (auto simp: list_all_iff inert_def)

lemma settled_end_append_inert:
  "list_all inert tr' \<Longrightarrow> tr' \<noteq> [] \<Longrightarrow> settled_end (tr @ tr') = None"
  by (auto simp: settled_end_def list_all_iff inert_def)

lemma inert_log [simp]: "inert (Log lvl msg arg, out)"
  by (simp add: inert_def)

lemma inert_sleep [simp]: "inert (Sleep ms, out)"
  by (simp add: inert_def)

lemma settled_7000 [simp]: "settled (WaitForTimeout p 7000, out) = None"
  by (cases out) simp_all

lemma inert_prologue: "is_prologue ev \<Longrightarrow> inert ev"
  by (cases ev rule: is_prologue.cases) (auto simp: inert_def)

lemma inert_closing: "closing ev \<Longrightarrow> inert ev"
  by (cases ev rule: closing.cases) (auto simp: inert_def)

lemma offered_take: "offered tr = [] \<Longrightarrow> offered (take n tr) = []"
proof -
  assume a: "offered tr = []"
  have "offered tr = offered (take n tr @ drop n tr)" by simp
  also have "\<dots> = offered (take n tr)
      @ offered_from (if take n tr = [] then None else settled (last (take n tr))) (drop n tr)"
    unfolding offered_def by (rule offered_from_append)
  finally show ?thesis using a by simp
qed

lemma examined_drop: "examined tr = [] \<Longrightarrow> examined (drop n tr) = []"
proof -
  assume a: "examined tr = []"
  have "examined tr = examined (take n tr) @ examined (drop n tr)"
    by (simp add: examined_append [symmetric])
  with a show ?thesis by simp
qed

subsection \<open>Rules for assertions on frames\<close>

lemma hoareI:
  assumes "\<And>s e s'. P s \<Longrightarrow> m s = (Inl e, s') \<Longrightarrow> E s'"
    and "\<And>s x s'. P s \<Longrightarrow> m s = (Inr x, s') \<Longrightarrow> Q x s'"
  shows "hoare P m Q E"
  unfolding hoare_def using assms by (auto split: prod.splits sum.splits)

lemma hoare_Inr: "hoare P m Q E \<Longrightarrow> P s \<Longrightarrow> m s = (Inr x, s') \<Longrightarrow> Q x s'"
  unfolding hoare_def by (auto dest!: spec [of _ s])

lemma hoare_Inl: "hoare P m Q E \<Longrightarrow> P s \<Longrightarrow> m s = (Inl e, s') \<Longrightarrow> E s'"
  unfolding hoare_def by (auto dest!: spec [of _ s])

lemma hoare_return: "(\<And>s. P s \<Longrightarrow> Q x s) \<Longrightarrow> hoare P (return_io x) Q E"
  by (rule hoareI) (simp_all add: return_io_def)

lemma hoare_gets: "(\<And>s. P s \<Longrightarrow> Q (f s) s) \<Longrightarrow> hoare P (gets f) Q E"
  by (rule hoareI) (auto simp: gets_def)

lemma hoare_bind:
  assumes "hoare P m R E" and "\<And>x. hoare (R x) (f x) Q E"
  shows "hoare P (bind_io m f) Q E"
proof (rule hoareI)
  fix s e s'
  assume P: "P s" and run: "bind_io m f s = (Inl e, s')"
  show "E s'"
  proof (cases "m s")
    case (Pair r s1)
    show ?thesis
    proof (cases r)
      case (Inl e1)
      with Pair run have "m s = (Inl e, s')" by (simp add: bind_io_def)
      with assms(1) P show ?thesis by (rule hoare_Inl)
    next
      case (Inr x)
      with Pair run have f: "f x s1 = (Inl e, s')" by (simp add: bind_io_def)
      from assms(1) P have "R x s1" using Pair Inr by (auto intro: hoare_Inr)
      with assms(2) [of x] show ?thesis using f by (rule hoare_Inl)
    qed
  qed
next
  fix s y s'
  assume P: "P s" and run: "bind_io m f s = (Inr y, s')"
  show "Q y s'"
  proof (cases "m s")
    case (Pair r s1)
    show ?thesis
    proof (cases r)
      case (Inl e1)
      with Pair run show ?thesis by (simp add: bind_io_def)
    next
      case (Inr x)
      with Pair run have f: "f x s1 = (Inr y, s')" by (simp add: bind_io_def)
      from assms(1) P have "R x s1" using Pair Inr by (auto intro: hoare_Inr)
      with assms(2) [of x] show ?thesis using f by (rule hoare_Inr)
    qed
  qed
qed

lemma hoare_try_except:
  assumes "hoare P m Q E'" and "\<And>e. hoare E' (h e) Q E"
  shows "hoare P (try_except m h) Q E"
proof (rule hoareI)
  fix s e s'
  assume P: "P s" and run: "try_except m h s = (Inl e, s')"
  show "E s'"
  proof (cases "m s")
    case (Pair r s1)
    show ?thesis
    proof (cases r)
      case (Inl e1)
      with Pair run have f: "h e1 s1 = (Inl e, s')" by (simp add: try_except_def)
      from assms(1) P have "E' s1" using Pair Inl by (auto intro: hoare_Inl)
      with assms(2) [of e1] show ?thesis using f by (rule hoare_Inl)
    next
      case (Inr x)
      with Pair run show ?thesis by (simp add: try_except_def)
    qed
  qed
next
  fix s y s'
  assume P: "P s" and run: "try_except m h s = (Inr y, s')"
  show "Q y s'"
  proof (cases "m s")
    case (Pair r s1)
    show ?thesis
    proof (cases r)
      case (Inl e1)
      with Pair run have f: "h e1 s1 = (Inr y, s')" by (simp add: try_except_def)
      from assms(1) P have "E' s1" using Pair Inl by (auto intro: hoare_Inl)
      with assms(2) [of e1] show ?thesis using f by (rule hoare_Inr)
    next
      case (Inr x)
      with Pair run have "m s = (Inr y, s')" by (simp add: try_except_def)
      with assms(1) P show ?thesis by (rule hoare_Inr)
    qed
  qed
qed

lemma hoare_try_finally:
  assumes "hoare P m (\<lambda>_. R) R" and "hoare R f (\<lambda>_. Q) E" and "\<And>s. Q s \<Longrightarrow> E s"
  shows "hoare P (try_finally m f) (\<lambda>_. Q) E"
proof -
  have R: "R s1" if "P s" "m s = (r, s1)" for s r s1
    using that assms(1) by (cases r) (auto intro: hoare_Inr hoare_Inl)
  show ?thesis
  proof (rule hoareI)
    fix s e s'
    assume P: "P s" and run: "try_finally m f s = (Inl e, s')"
    obtain r s1 where m: "m s = (r, s1)" by (cases "m s")
    obtain r' s2 where f: "f s1 = (r', s2)" by (cases "f s1")
    from R [OF P m] have R1: "R s1" .
    show "E s'"
    proof (cases r')
      case (Inl e')
      with run m f have "f s1 = (Inl e, s')" by (simp add: try_finally_def)
      with assms(2) R1 show ?thesis by (rule hoare_Inl)
    next
      case (Inr u)
      with run m f have "s' = s2" by (simp add: try_finally_def)
      moreover from assms(2) R1 f Inr have "Q s2" by (auto intro: hoare_Inr)
      ultimately show ?thesis using assms(3) by simp
    qed
  next
    fix s y s'
    assume P: "P s" and run: "try_finally m f s = (Inr y, s')"
    obtain r s1 where m: "m s = (r, s1)" by (cases "m s")
    obtain r' s2 where f: "f s1 = (r', s2)" by (cases "f s1")
    from R [OF P m] have R1: "R s1" .
    show "Q s'"
    proof (cases r')
      case (Inl e')
      with run m f show ?thesis by (simp add: try_finally_def)
    next
      case (Inr u)
      with run m f have "s' = s2" by (simp add: try_finally_def)
      moreover from assms(2) R1 f Inr have "Q s2" by (auto intro: hoare_Inr)
      ultimately show ?thesis by simp
    qed
  qed
qed

lemma hoare_if:
  "(b \<Longrightarrow> hoare P m Q E) \<Longrightarrow> (\<not> b \<Longrightarrow> hoare P m' Q E) \<Longrightarrow> hoare P (if b then m else m') Q E"
  by simp

lemma hoare_if_split:
  "(b \<Longrightarrow> hoare P1 m Q E) \<Longrightarrow> (\<not> b \<Longrightarrow> hoare P2 m' Q E) \<Longrightarrow>
   hoare (\<lambda>s. if b then P1 s else P2 s) (if b then m else m') Q E"
  by simp

lemma hoare_case_option:
  "(x = None \<Longrightarrow> hoare P m Q E) \<Longrightarrow> (\<And>y. x = Some y \<Longrightarrow> hoare P (f y) Q E) \<Longrightarrow>
   hoare P (case x of None \<Rightarrow> m | Some y \<Rightarrow> f y) Q E"
  by (cases x) simp_all

lemma hoare_case_exn:
  "hoare P m Q E \<Longrightarrow> hoare P m' Q E \<Longrightarrow>
   hoare P (case e of PlaywrightTimeoutError \<Rightarrow> m | OtherException \<Rightarrow> m') Q E"
  by (cases e) simp_all

lemma hoare_weaken:
  assumes "hoare P' m Q' E'" and "\<And>s. P s \<Longrightarrow> P' s" and "\<And>x s. Q' x s \<Longrightarrow> Q x s"
    and "\<And>s. E' s \<Longrightarrow> E s"
  shows "hoare P m Q E"
  using assms unfolding hoare_def by (fastforce split: prod.splits sum.splits)

lemma hoare_pre: "hoare P' m Q E \<Longrightarrow> (\<And>s. P s \<Longrightarrow> P' s) \<Longrightarrow> hoare P m Q E"
  by (rule hoare_weaken)

subsection \<open>The steps of the attempt on one identifier\<close>

lemma offers_nonempty: "offers a ev = Some l \<Longrightarrow> l \<noteq> []"
  by (cases "(a, ev)" rule: offers.cases)
     (auto simp: direct_url_def split: if_splits dest: endswith_nonempty str_in_nonempty
       elim: is_direct.elims)

lemma attempting_trying: "attempting a s \<Longrightarrow> trying s"
  by (simp add: attempting_def)

lemma trying_seeking: "trying s \<Longrightarrow> seeking s"
  by (simp add: trying_def)

lemma trying_emit:
  "trying s \<Longrightarrow> offers (settled_end (trace s)) (c, out) = None \<Longrightarrow> trying (emit c out s)"
  by (simp add: trying_def seeking_def emit_def offered_snoc examined_append)

lemma attempting_emit:
  "attempting a s \<Longrightarrow> offers a (c, out) = None \<Longrightarrow> attempting (settled (c, out)) (emit c out s)"
  using trying_emit [of s c out] by (simp add: attempting_def) (simp add: emit_def)

lemma pending_emit:
  assumes "attempting a s" and "offers a (c, out) = Some l"
  shows "pending (Some l) (emit c out s)"
proof -
  from assms(1) have "result_var s = None" "offered (trace s) = []" "examined (trace s) \<noteq> []"
    "settled_end (trace s) = a"
    by (simp_all add: attempting_def trying_def seeking_def)
  with assms(2) offers_nonempty [OF assms(2)] show ?thesis
    unfolding pending_def by (auto simp: emit_def)
qed

lemma seeking_emit_visible:
  assumes "seeking s"
  shows "attempting None (emit (IsVisible p (ServerElement i)) out s)"
proof -
  have "offers a (IsVisible p (ServerElement i), out) = None" for a by simp
  moreover have "settled (IsVisible p (ServerElement i), out) = None" by simp
  ultimately show ?thesis
    using assms
    by (simp add: attempting_def trying_def seeking_def emit_def offered_snoc examined_append
          examined_Cons)
qed

lemma seeking_emit_inert: "seeking s \<Longrightarrow> inert (c, out) \<Longrightarrow> seeking (emit c out s)"
  by (simp add: seeking_def emit_def offered_snoc inert_def)

lemma att_call_unit:
  assumes "\<And>out. offers a (c, out) = None"
  shows "hoare (attempting a) (call_unit w c) (\<lambda>_. attempting (settled (c, Returned))) trying"
proof (rule hoareI)
  fix s s' :: "string option frame" and e :: exn
  assume "attempting a s" "call_unit w c s = (Inl e, s')"
  then have "attempting (settled (c, Raised e)) s'"
    using attempting_emit [OF _ assms, of s "Raised e"]
    by (auto simp: call_unit_def split: option.splits)
  then show "trying s'" by (rule attempting_trying)
next
  fix s s' :: "string option frame" and x
  assume "attempting a s" "call_unit w c s = (Inr x, s')"
  then show "attempting (settled (c, Returned)) s'"
    using attempting_emit [OF _ assms, of s Returned]
    by (auto simp: call_unit_def split: option.splits)
qed

lemma att_call_bool:
  assumes "\<And>out. offers a (c, out) = None"
  shows "hoare (attempting a) (call_bool w c) (\<lambda>_. attempting None) trying"
proof (rule hoareI)
  fix s s' :: "string option frame" and e :: exn
  assume "attempting a s" "call_bool w c s = (Inl e, s')"
  then have "attempting (settled (c, Raised e)) s'"
    using attempting_emit [OF _ assms, of s "Raised e"]
    by (auto simp: call_bool_def split: option.splits)
  then show "trying s'" by (rule attempting_trying)
next
  fix s s' :: "string option frame" and x
  assume "attempting a s" "call_bool w c s = (Inr x, s')"
  then show "attempting None s'"
    using attempting_emit [OF _ assms, of s "RetBool x"]
    by (auto simp: call_bool_def split: option.splits)
qed

lemma att_call_nat:
  assumes "\<And>out. offers a (c, out) = None"
  shows "hoare (attempting a) (call_nat w c) (\<lambda>_. attempting None) trying"
proof (rule hoareI)
  fix s s' :: "string option frame" and e :: exn
  assume "attempting a s" "call_nat w c s = (Inl e, s')"
  then have "attempting (settled (c, Raised e)) s'"
    using attempting_emit [OF _ assms, of s "Raised e"]
    by (auto simp: call_nat_def split: option.splits)
  then show "trying s'" by (rule attempting_trying)
next
  fix s s' :: "string option frame" and x
  assume "attempting a s" "call_nat w c s = (Inr x, s')"
  then show "attempting None s'"
    using attempting_emit [OF _ assms, of s "RetNat x"]
    by (auto simp: call_nat_def split: option.splits)
qed

text \<open>A read that may offer a link: of an attribute, or of the URL of a page.\<close>

lemma att_call_opt:
  assumes "\<And>e. offers a (c, Raised e) = None"
  shows "hoare (attempting a) (call_opt w c)
           (\<lambda>h s. if offers a (c, RetOpt h) = None then attempting None s
                   else pending (offers a (c, RetOpt h)) s) trying"
proof (rule hoareI)
  fix s s' :: "string option frame" and e :: exn
  assume "attempting a s" "call_opt w c s = (Inl e, s')"
  then have "attempting (settled (c, Raised e)) s'"
    using attempting_emit [OF _ assms, of s e]
    by (auto simp: call_opt_def split: option.splits)
  then show "trying s'" by (rule attempting_trying)
next
  fix s s' :: "string option frame" and h
  assume a: "attempting a s" and run: "call_opt w c s = (Inr h, s')"
  then have s': "s' = emit c (RetOpt h) s"
    by (auto simp: call_opt_def split: option.splits)
  show "if offers a (c, RetOpt h) = None then attempting None s'
        else pending (offers a (c, RetOpt h)) s'"
  proof (cases "offers a (c, RetOpt h)")
    case None
    with attempting_emit [OF a None] s' show ?thesis by simp
  next
    case (Some l)
    with pending_emit [OF a Some] s' show ?thesis by simp
  qed
qed

lemma att_read_url:
  "hoare (attempting a) (read_url w p)
     (\<lambda>u s. if offers a (PageUrl p, RetStr u) = None then attempting None s
             else pending (offers a (PageUrl p, RetStr u)) s) E"
proof (rule hoareI)
  fix s s' :: "string option frame" and e :: exn
  assume "read_url w p s = (Inl e, s')"
  then show "E s'" by (simp add: read_url_def)
next
  fix s s' :: "string option frame" and u
  assume a: "attempting a s" and run: "read_url w p s = (Inr u, s')"
  then have s': "s' = emit (PageUrl p) (RetStr u) s"
    by (auto simp: read_url_def)
  show "if offers a (PageUrl p, RetStr u) = None then attempting None s'
        else pending (offers a (PageUrl p, RetStr u)) s'"
  proof (cases "offers a (PageUrl p, RetStr u)")
    case None
    with attempting_emit [OF a None] s' show ?thesis by simp
  next
    case (Some l)
    with pending_emit [OF a Some] s' show ?thesis by simp
  qed
qed

lemma att_log: "hoare (attempting a) (log lvl msg arg) (\<lambda>_. attempting None) E"
proof (rule hoareI)
  fix s s' :: "string option frame" and e :: exn
  assume "log lvl msg arg s = (Inl e, s')"
  then show "E s'" by (simp add: log_def)
next
  fix s s' :: "string option frame" and x
  assume "attempting a s" "log lvl msg arg s = (Inr x, s')"
  then show "attempting None s'"
    using attempting_emit [of a s "Log lvl msg arg" Returned]
    by (auto simp: log_def)
qed

lemma att_read_new_page:
  "hoare (attempting a) (read_new_page w c) (\<lambda>_. attempting None) E"
proof (rule hoareI)
  fix s s' :: "string option frame" and e :: exn
  assume "read_new_page w c s = (Inl e, s')"
  then show "E s'" by (simp add: read_new_page_def split: if_splits)
next
  fix s s' :: "string option frame" and x
  assume "attempting a s" "read_new_page w c s = (Inr x, s')"
  then show "attempting None s'"
    using attempting_emit [of a s "ContextPages c" Returned]
      attempting_emit [of a s "ContextPages c" "RetHandle (length (trace s))"]
    by (auto simp: read_new_page_def split: if_splits)
qed

text \<open>After an exception, or when it does not matter which page has settled.\<close>

lemma trying_attempting: "trying s \<Longrightarrow> attempting (settled_end (trace s)) s"
  by (simp add: attempting_def)

lemma try_call_unit:
  assumes "\<And>a out. offers a (c, out) = None"
  shows "hoare trying (call_unit w c) (\<lambda>_. attempting (settled (c, Returned))) trying"
proof (rule hoareI)
  fix s s' :: "string option frame" and e :: exn
  assume "trying s" and run: "call_unit w c s = (Inl e, s')"
  then have "attempting (settled_end (trace s)) s" by (simp add: attempting_def)
  with att_call_unit [of "settled_end (trace s)" c w, OF assms] show "trying s'"
    using run by (rule hoare_Inl)
next
  fix s s' :: "string option frame" and x
  assume "trying s" and run: "call_unit w c s = (Inr x, s')"
  then have "attempting (settled_end (trace s)) s" by (simp add: attempting_def)
  with att_call_unit [of "settled_end (trace s)" c w, OF assms]
  show "attempting (settled (c, Returned)) s'"
    using run by (rule hoare_Inr)
qed

lemma try_log: "hoare trying (log lvl msg arg) (\<lambda>_. attempting None) E"
proof (rule hoareI)
  fix s s' :: "string option frame" and e :: exn
  assume "log lvl msg arg s = (Inl e, s')"
  then show "E s'" by (simp add: log_def)
next
  fix s s' :: "string option frame" and x
  assume "trying s" and run: "log lvl msg arg s = (Inr x, s')"
  then have "attempting (settled_end (trace s)) s" by (simp add: attempting_def)
  with att_log [of "settled_end (trace s)" lvl msg arg "\<lambda>_. False"]
  show "attempting None s'"
    using run by (rule hoare_Inr)
qed

text \<open>The assignment of the link that was just offered, its log line and \<open>break\<close>.\<close>

lemma hoare_found: "hoare (pending x) (found msg x) sought E"
proof (rule hoareI)
  fix s s' :: "string option frame" and e :: exn
  assume "found msg x s = (Inl e, s')"
  then show "E s'" by (simp add: found_def io_defs)
next
  fix s s' :: "string option frame" and c
  assume p: "pending x s" and run: "found msg x s = (Inr c, s')"
  from p obtain l X ev where x: "x = Some l" "l \<noteq> []" "trace s = X @ [ev]" "offered X = []"
    "examined X \<noteq> []" "offers (settled_end X) ev = Some l"
    unfolding pending_def by blast
  from run x have "c = Break" "result_var s' = Some l"
    "trace s' = X @ [ev, (Log INFO msg l, Returned)]"
    by (auto simp: found_def io_defs)
  with x show "sought c s'"
    unfolding sought_def found_at_def by auto
qed

lemma hoare_proceed: "c \<noteq> Break \<Longrightarrow> hoare (attempting None) (return_io c) sought E"
  by (rule hoare_return) (simp add: sought_def)

lemma hoare_break_if_found: "hoare (attempting None) break_if_found sought E"
proof (rule hoareI)
  fix s s' :: "string option frame" and e :: exn
  assume "break_if_found s = (Inl e, s')"
  then show "E s'" by (simp add: break_if_found_def io_defs split: if_splits)
next
  fix s s' :: "string option frame" and c
  assume "attempting None s" and "break_if_found s = (Inr c, s')"
  then show "sought c s'"
    by (auto simp: break_if_found_def io_defs sought_def attempting_def trying_def seeking_def
          split: if_splits)
qed

lemma hoare_bind_break:
  assumes "hoare P m sought E" and "hoare (attempting None) rest sought E"
  shows "hoare P (bind_io m (\<lambda>c. if c = Break then return_io Break else rest)) sought E"
proof (rule hoare_bind [OF assms(1)])
  fix c
  show "hoare (sought c) (if c = Break then return_io Break else rest) sought E"
  proof (cases "c = Break")
    case True
    then show ?thesis by (simp add: hoare_return)
  next
    case False
    then have "hoare (sought c) rest sought E"
      by (intro hoare_pre [OF assms(2)]) (simp add: sought_def)
    with False show ?thesis by simp
  qed
qed

lemma hoare_attribute:
  assumes off: "\<And>h. offers None (GetAttribute p loc n, RetOpt h)
                      = (if is_direct exts h then h else None)"
    and k: "hoare (attempting None) k sought trying"
  shows "hoare (attempting None)
           (bind_io (call_opt w (GetAttribute p loc n)) (\<lambda>h.
              if is_direct exts h then found msg h else k)) sought trying"
proof (rule hoare_bind [OF att_call_opt])
  fix e
  show "offers None (GetAttribute p loc n, Raised e) = None" by simp
next
  fix h
  let ?pre = "\<lambda>s. if offers None (GetAttribute p loc n, RetOpt h) = None then attempting None s
                   else pending (offers None (GetAttribute p loc n, RetOpt h)) s"
  show "hoare ?pre (if is_direct exts h then found msg h else k) sought trying"
  proof (cases "is_direct exts h")
    case True
    then obtain x where "h = Some x" by (cases h) simp_all
    with True off [of h] have "?pre = pending h" by (simp add: fun_eq_iff)
    with True show ?thesis by (simp add: hoare_found)
  next
    case False
    with off [of h] have "?pre = attempting None" by (simp add: fun_eq_iff)
    with False k show ?thesis by simp
  qed
qed

lemma hoare_visible_attribute:
  assumes off: "\<And>h. offers None (GetAttribute p loc n, RetOpt h)
                      = (if is_direct exts h then h else None)"
    and vis: "\<And>a out. offers a (IsVisible p loc, out) = None"
    and cnt: "\<And>a out. offers a (Count p loc, out) = None"
  shows "hoare (attempting None)
     (bind_io (call_nat w (Count p loc)) (\<lambda>m.
      bind_io (if m > 0 then call_bool w (IsVisible p loc) else return_io False) (\<lambda>visible.
      if visible then
        bind_io (call_opt w (GetAttribute p loc n)) (\<lambda>h.
          if is_direct exts h then found msg h else return_io Proceed)
      else return_io Proceed))) sought trying"
proof (rule hoare_bind [OF att_call_nat])
  fix out
  show "offers None (Count p loc, out) = None" by (rule cnt)
next
  fix m
  show "hoare (attempting None)
     (bind_io (if m > 0 then call_bool w (IsVisible p loc) else return_io False) (\<lambda>visible.
      if visible then
        bind_io (call_opt w (GetAttribute p loc n)) (\<lambda>h.
          if is_direct exts h then found msg h else return_io Proceed)
      else return_io Proceed)) sought trying"
  proof (rule hoare_bind [where R = "\<lambda>_. attempting None"])
    show "hoare (attempting None) (if m > 0 then call_bool w (IsVisible p loc) else return_io False)
            (\<lambda>_. attempting None) trying"
      by (intro hoare_if att_call_bool hoare_return vis)
  next
    fix visible
    show "hoare (attempting None)
       (if visible then
          bind_io (call_opt w (GetAttribute p loc n)) (\<lambda>h.
            if is_direct exts h then found msg h else return_io Proceed)
        else return_io Proceed) sought trying"
      by (intro hoare_if hoare_attribute hoare_proceed off) simp_all
  qed
qed

lemma bind_assoc:
  "bind_io (bind_io m f) g = bind_io m (\<lambda>x. bind_io (f x) g)"
  by (auto simp: bind_io_def fun_eq_iff split: prod.splits sum.splits)

text \<open>
  The search on the page that has settled: its URL is read right after the dwell, so a
  direct URL is an offer.
\<close>

lemma hoare_search_final_link:
  "hoare (attempting (Some current)) (search_final_link w current) sought trying"
proof -
  let ?video = "bind_io (call_nat w (Count current VideoElement)) (\<lambda>n.
       bind_io (if n > 0 then call_bool w (IsVisible current VideoElement)
                else return_io False) (\<lambda>video_visible.
       if video_visible then
                  bind_io (call_opt w (GetAttribute current VideoElement ''src'')) (\<lambda>src.
                  if is_direct [''.mp4'', ''.mkv''] src
                  then found ''Found video src link'' src
                  else return_io Proceed)
                else return_io Proceed))"
  let ?button = "bind_io (call_nat w (Count current DownloadButton)) (\<lambda>m.
         bind_io (if m > 0 then call_bool w (IsVisible current DownloadButton)
                  else return_io False) (\<lambda>button_visible.
         if button_visible then
                    bind_io (call_opt w (GetAttribute current DownloadButton ''href'')) (\<lambda>href.
                    if is_direct [''.mp4'', ''.mkv''] href
                    then found ''Found direct download button link'' href
                    else return_io Proceed)
                  else return_io Proceed))"
  let ?rest = "bind_io ?video (\<lambda>c.
       if c = Break then return_io Break
       else bind_io ?button (\<lambda>c'.
         if c' = Break then return_io Break
         else break_if_found))"
  have eq: "search_final_link w current =
     bind_io (read_url w current) (\<lambda>current_url.
     if direct_url current_url
     then found ''Page URL is direct link'' (Some current_url)
     else ?rest)"
    unfolding search_final_link_def direct_url_def by (simp add: bind_assoc cong: if_cong)
  have video: "hoare (attempting None) ?video sought trying"
    by (rule hoare_visible_attribute) simp_all
  have button: "hoare (attempting None) ?button sought trying"
    by (rule hoare_visible_attribute) simp_all
  have rest: "hoare (attempting None) ?rest sought trying"
    by (intro hoare_bind_break video button hoare_break_if_found)
  show ?thesis
    unfolding eq
  proof (rule hoare_bind [OF att_read_url])
    fix u
    let ?pre = "\<lambda>s. if offers (Some current) (PageUrl current, RetStr u) = None
                     then attempting None s
                     else pending (offers (Some current) (PageUrl current, RetStr u)) s"
    show "hoare ?pre (if direct_url u then found ''Page URL is direct link'' (Some u) else ?rest)
            sought trying"
    proof (cases "direct_url u")
      case True
      then have "?pre = pending (Some u)" by (simp add: fun_eq_iff)
      with True show ?thesis by (simp add: hoare_found)
    next
      case False
      then have "?pre = attempting None" by (simp add: fun_eq_iff)
      with False rest show ?thesis by simp
    qed
  qed
qed

lemma hoare_use_element:
  "hoare (attempting None) (use_element w page ctx server_name ident) sought trying"
proof -
  let ?exit = "\<lambda>page_url. if \<not> str_in ''vcloud'' (lower page_url)
                   then call_unit w (ExpectPage ctx)
                   else call_unit w (PageExit page)"
  let ?switch = "\<lambda>new_page. case new_page of
                  Some np \<Rightarrow>
                    bind_io (call_unit w (BringToFront np)) (\<lambda>_.
                    bind_io (log INFO ''Switched to new page'' []) (\<lambda>_.
                    return_io np))
                | None \<Rightarrow> return_io page"
  let ?settle = "\<lambda>current.
       bind_io (call_unit w (WaitForLoadState current)) (\<lambda>_.
       bind_io (call_unit w (WaitForTimeout current 5000)) (\<lambda>_.
       search_final_link w current))"
  let ?click = "bind_io (log INFO ''Clicking element for'' server_name) (\<lambda>_.
       bind_io (read_url w page) (\<lambda>page_url.
       bind_io (try_finally (call_unit w (Click page (ServerElement ident))) (?exit page_url)) (\<lambda>_.
       bind_io (read_new_page w ctx) (\<lambda>new_page.
       bind_io (?switch new_page) ?settle))))"
  have eq: "use_element w page ctx server_name ident =
     bind_io (log INFO ''Found element for'' server_name) (\<lambda>_.
     bind_io (call_opt w (GetAttribute page (ServerElement ident) ''href'')) (\<lambda>href.
     if is_direct [''.mp4'', ''.mkv'', ''.avi'', ''.webm''] href
     then found ''Found direct link from attribute'' href
     else ?click))"
    unfolding use_element_def by simp
  have settle: "hoare (attempting None) (?settle current) sought trying" for current
  proof (rule hoare_bind [OF att_call_unit])
    fix out show "offers None (WaitForLoadState current, out) = None" by simp
  next
    fix x :: unit
    have "settled (WaitForLoadState current, Returned) = None" by simp
    moreover have "hoare (attempting None)
        (bind_io (call_unit w (WaitForTimeout current 5000)) (\<lambda>_. search_final_link w current))
        sought trying"
    proof (rule hoare_bind [OF att_call_unit])
      fix out show "offers None (WaitForTimeout current 5000, out) = None" by simp
    next
      fix y :: unit
      have "settled (WaitForTimeout current 5000, Returned) = Some current" by simp
      with hoare_search_final_link [of current w]
      show "hoare (attempting (settled (WaitForTimeout current 5000, Returned)))
              (search_final_link w current) sought trying"
        by simp
    qed
    ultimately show "hoare (attempting (settled (WaitForLoadState current, Returned)))
        (bind_io (call_unit w (WaitForTimeout current 5000)) (\<lambda>_. search_final_link w current))
        sought trying"
      by simp
  qed
  have switch: "hoare (attempting None) (?switch new_page) (\<lambda>_. attempting None) trying"
    for new_page
  proof (rule hoare_case_option)
    show "hoare (attempting None) (return_io page) (\<lambda>_. attempting None) trying"
      by (rule hoare_return)
  next
    fix np
    show "hoare (attempting None)
       (bind_io (call_unit w (BringToFront np)) (\<lambda>_.
        bind_io (log INFO ''Switched to new page'' []) (\<lambda>_. return_io np)))
       (\<lambda>_. attempting None) trying"
    proof (rule hoare_bind [OF att_call_unit])
      fix out show "offers None (BringToFront np, out) = None" by simp
    next
      fix x :: unit
      show "hoare (attempting (settled (BringToFront np, Returned)))
          (bind_io (log INFO ''Switched to new page'' []) (\<lambda>_. return_io np))
          (\<lambda>_. attempting None) trying"
        by (rule hoare_bind [OF att_log]) (rule hoare_return)
    qed
  qed
  have exit: "hoare trying (?exit page_url) (\<lambda>_. attempting None) trying" for page_url
  proof (rule hoare_if)
    have "settled (ExpectPage ctx, Returned) = None" by simp
    with try_call_unit [of "ExpectPage ctx" w]
    show "hoare trying (call_unit w (ExpectPage ctx)) (\<lambda>_. attempting None) trying" by simp
  next
    have "settled (PageExit page, Returned) = None" by simp
    with try_call_unit [of "PageExit page" w]
    show "hoare trying (call_unit w (PageExit page)) (\<lambda>_. attempting None) trying" by simp
  qed
  have clicking: "hoare (attempting None)
       (try_finally (call_unit w (Click page (ServerElement ident))) (?exit page_url))
       (\<lambda>_. attempting None) trying" for page_url
  proof (rule hoare_try_finally [where R = trying])
    have "hoare (attempting None) (call_unit w (Click page (ServerElement ident)))
            (\<lambda>_. attempting (settled (Click page (ServerElement ident), Returned))) trying"
      by (rule att_call_unit) simp
    then show "hoare (attempting None) (call_unit w (Click page (ServerElement ident)))
            (\<lambda>_. trying) trying"
      by (rule hoare_weaken) (simp_all add: attempting_def)
  next
    show "hoare trying (?exit page_url) (\<lambda>_. attempting None) trying" by (rule exit)
  next
    fix s :: "string option frame"
    assume "attempting None s"
    then show "trying s" by (rule attempting_trying)
  qed
  have click: "hoare (attempting None) ?click sought trying"
  proof (rule hoare_bind [OF att_log])
    fix x :: unit
    show "hoare (attempting None)
       (bind_io (read_url w page) (\<lambda>page_url.
        bind_io (try_finally (call_unit w (Click page (ServerElement ident))) (?exit page_url)) (\<lambda>_.
        bind_io (read_new_page w ctx) (\<lambda>new_page.
        bind_io (?switch new_page) ?settle)))) sought trying"
    proof (rule hoare_bind [OF att_read_url])
      fix page_url
      have "offers None (PageUrl page, RetStr page_url) = None" by simp
      then have pre: "(\<lambda>s. if offers None (PageUrl page, RetStr page_url) = None
                 then attempting None s
                 else pending (offers None (PageUrl page, RetStr page_url)) s) = attempting None"
        by (simp add: fun_eq_iff)
      have "hoare (attempting None)
         (bind_io (try_finally (call_unit w (Click page (ServerElement ident))) (?exit page_url)) (\<lambda>_.
          bind_io (read_new_page w ctx) (\<lambda>new_page.
          bind_io (?switch new_page) ?settle))) sought trying"
      proof (rule hoare_bind [OF clicking])
        fix y :: unit
        show "hoare (attempting None)
           (bind_io (read_new_page w ctx) (\<lambda>new_page. bind_io (?switch new_page) ?settle))
           sought trying"
        proof (rule hoare_bind [OF att_read_new_page])
          fix new_page
          show "hoare (attempting None) (bind_io (?switch new_page) ?settle) sought trying"
            by (rule hoare_bind [OF switch]) (rule settle)
        qed
      qed
      then show "hoare (\<lambda>s. if offers None (PageUrl page, RetStr page_url) = None
                 then attempting None s
                 else pending (offers None (PageUrl page, RetStr page_url)) s)
         (bind_io (try_finally (call_unit w (Click page (ServerElement ident))) (?exit page_url)) (\<lambda>_.
          bind_io (read_new_page w ctx) (\<lambda>new_page.
          bind_io (?switch new_page) ?settle))) sought trying"
        unfolding pre .
    qed
  qed
  show ?thesis
    unfolding eq
  proof (rule hoare_bind [OF att_log])
    fix x :: unit
    show "hoare (attempting None)
       (bind_io (call_opt w (GetAttribute page (ServerElement ident) ''href'')) (\<lambda>href.
        if is_direct [''.mp4'', ''.mkv'', ''.avi'', ''.webm''] href
        then found ''Found direct link from attribute'' href
        else ?click)) sought trying"
      by (rule hoare_attribute [OF _ click]) simp
  qed
qed

text \<open>
  One identifier: from a frame where nothing has been offered, the attempt ends with
  \<open>break\<close> right after the log line of an offer, or without an offer.
\<close>

lemma hoare_try_identifier:
  "hoare seeking (try_identifier w page ctx server_name ident) searched (\<lambda>_. False)"
  unfolding try_identifier_def
proof (rule hoare_try_except [where E' = trying])
  let ?rest = "\<lambda>visible. bind_io (if visible then use_element w page ctx server_name ident
                 else return_io Proceed) (\<lambda>c.
        if c = Break then return_io Break else break_if_found)"
  have visible: "hoare seeking (call_bool w (IsVisible page (ServerElement ident)))
      (\<lambda>_. attempting None) trying"
  proof (rule hoareI)
    fix s s' :: "string option frame" and e :: exn
    assume "seeking s" "call_bool w (IsVisible page (ServerElement ident)) s = (Inl e, s')"
    then have "attempting None s'"
      using seeking_emit_visible [of s page ident "Raised e"]
      by (auto simp: call_bool_def split: option.splits)
    then show "trying s'" by (rule attempting_trying)
  next
    fix s s' :: "string option frame" and v
    assume "seeking s" "call_bool w (IsVisible page (ServerElement ident)) s = (Inr v, s')"
    then show "attempting None s'"
      using seeking_emit_visible [of s page ident "RetBool v"]
      by (auto simp: call_bool_def split: option.splits)
  qed
  have rest: "hoare (attempting None) (?rest v) sought trying" for v
    by (intro hoare_bind_break hoare_if hoare_use_element hoare_proceed hoare_break_if_found)
       simp
  have "hoare seeking (bind_io (call_bool w (IsVisible page (ServerElement ident))) ?rest)
      sought trying"
    by (rule hoare_bind [OF visible]) (rule rest)
  then show "hoare seeking (bind_io (call_bool w (IsVisible page (ServerElement ident))) ?rest)
      searched trying"
    by (rule hoare_weaken)
       (auto simp: sought_def searched_def attempting_def trying_def)
next
  fix e
  have "hoare trying (bind_io (log lvl msg server_name) (\<lambda>_. return_io Proceed))
      searched (\<lambda>_. False)" for lvl msg
  proof (rule hoare_bind [OF try_log])
    fix x :: unit
    show "hoare (attempting None) (return_io Proceed) searched (\<lambda>_. False)"
      by (rule hoare_return) (simp add: searched_def attempting_def trying_def)
  qed
  then show "hoare trying
      (case e of
         PlaywrightTimeoutError \<Rightarrow>
           bind_io (log DEBUG ''Timeout finding/interacting with'' server_name) (\<lambda>_.
           return_io Proceed)
       | OtherException \<Rightarrow>
           bind_io (log WARNING ''Could not find/interact with'' server_name) (\<lambda>_.
           return_io Proceed)) searched (\<lambda>_. False)"
    by (cases e) simp_all
qed

lemma hoare_for_identifiers:
  "hoare seeking (for_identifiers w page ctx server_name ids) (\<lambda>_. search_over) (\<lambda>_. False)"
proof (induction ids)
  case Nil
  show ?case by (simp add: hoare_return search_over_def)
next
  case (Cons ident rest)
  show ?case
    unfolding for_identifiers.simps
  proof (rule hoare_bind [OF hoare_try_identifier])
    fix c
    show "hoare (searched c)
        (if c = Break then return_io () else for_identifiers w page ctx server_name rest)
        (\<lambda>_. search_over) (\<lambda>_. False)"
    proof (cases "c = Break")
      case True
      then show ?thesis by (auto intro!: hoare_return simp: searched_def search_over_def)
    next
      case False
      then have "searched c = seeking" by (simp add: searched_def fun_eq_iff)
      with False Cons.IH show ?thesis by simp
    qed
  qed
qed

lemma found_at_truthy: "found_at s \<Longrightarrow> truthy (result_var s)"
  by (auto simp: found_at_def)

lemma hoare_for_servers:
  "hoare seeking (for_servers w page ctx prefs) (\<lambda>_. search_over) (\<lambda>_. False)"
proof (induction prefs)
  case Nil
  show ?case by (simp add: hoare_return search_over_def)
next
  case (Cons pref rest)
  have log: "hoare seeking (log DEBUG ''Trying server'' (name pref)) (\<lambda>_. seeking) (\<lambda>_. False)"
  proof (rule hoareI)
    fix s s' :: "string option frame" and e :: exn
    assume "log DEBUG ''Trying server'' (name pref) s = (Inl e, s')"
    then show False by (simp add: log_def)
  next
    fix s s' :: "string option frame" and x :: unit
    assume "seeking s" "log DEBUG ''Trying server'' (name pref) s = (Inr x, s')"
    then show "seeking s'"
      using seeking_emit_inert [of s "Log DEBUG ''Trying server'' (name pref)" Returned]
      by (auto simp: log_def)
  qed
  have brk: "hoare search_over break_if_found searched (\<lambda>_. False)"
  proof (rule hoareI)
    fix s s' :: "string option frame" and e :: exn
    assume "break_if_found s = (Inl e, s')"
    then show False by (simp add: break_if_found_def io_defs split: if_splits)
  next
    fix s s' :: "string option frame" and c
    assume "search_over s" and run: "break_if_found s = (Inr c, s')"
    then consider "found_at s" | "seeking s" unfolding search_over_def by blast
    then show "searched c s'"
    proof cases
      case 1
      with run found_at_truthy [OF 1] show ?thesis
        by (auto simp: break_if_found_def io_defs searched_def split: if_splits)
    next
      case 2
      with run show ?thesis
        by (auto simp: break_if_found_def io_defs searched_def seeking_def split: if_splits)
    qed
  qed
  show ?case
    unfolding for_servers.simps
  proof (rule hoare_bind [OF log])
    fix x :: unit
    show "hoare seeking
       (bind_io (for_identifiers w page ctx (name pref) (identifiers pref)) (\<lambda>_.
        bind_io break_if_found (\<lambda>c.
        if c = Break then return_io () else for_servers w page ctx rest)))
       (\<lambda>_. search_over) (\<lambda>_. False)"
    proof (rule hoare_bind [OF hoare_for_identifiers])
      fix y :: unit
      show "hoare search_over
         (bind_io break_if_found (\<lambda>c.
            if c = Break then return_io () else for_servers w page ctx rest))
         (\<lambda>_. search_over) (\<lambda>_. False)"
      proof (rule hoare_bind [OF brk])
        fix c
        show "hoare (searched c)
            (if c = Break then return_io () else for_servers w page ctx rest)
            (\<lambda>_. search_over) (\<lambda>_. False)"
        proof (cases "c = Break")
          case True
          then show ?thesis by (auto intro!: hoare_return simp: searched_def search_over_def)
        next
          case False
          then have "searched c = seeking" by (simp add: searched_def fun_eq_iff)
          with False Cons.IH show ?thesis by simp
        qed
      qed
    qed
  qed
qed

lemma for_servers_offers:
  assumes "seeking s" and "for_servers w page ctx prefs s = (Inr u, s')"
  shows "found_at s' \<or> seeking s'"
  using hoare_Inr [OF hoare_for_servers assms] by (simp add: search_over_def)

subsection \<open>Runs of the server resolution, by what the pages offered\<close>

lemma offers_examines: "offers a ev = Some l \<Longrightarrow> examines ev = None"
  by (cases "(a, ev)" rule: offers.cases) (auto split: if_splits)

lemma offers_no_yield: "offers a ev = Some l \<Longrightarrow> \<not> yields ev"
  by (cases "(a, ev)" rule: offers.cases) (auto split: if_splits)

lemma inert_no_yield_closing: "closing ev \<Longrightarrow> inert ev \<and> \<not> yields ev \<and> \<not> is_prologue ev"
  using closing_inert [of ev] inert_closing [of ev] by simp

text \<open>A run in which no page offers a link.\<close>

lemma nothing_offered:
  assumes "offered tr = []"
  shows "\<forall>n. offered (take n tr) \<noteq> [] \<longrightarrow>
           examined (take n tr) \<noteq> [] \<and> examined (drop n tr) = []"
    and "\<forall>l \<in> set (offered tr). offered tr = [l] \<and> r = Inr (Some l)"
  using assms offered_take [OF assms] by simp_all

text \<open>
  A run in which the event \<open>ev\<close> offers the link \<open>l\<close>, the log line of the find follows,
  and nothing is offered or examined before and after.
\<close>

lemma one_offered:
  assumes tr: "tr = X @ [ev, lg] @ T" and X: "offered X = []" "examined X \<noteq> []"
    and ev: "offers (settled_end X) ev = Some l"
    and T: "list_all inert (lg # T)"
  shows "offered tr = [l]"
    and "\<forall>n. offered (take n tr) \<noteq> [] \<longrightarrow>
           examined (take n tr) \<noteq> [] \<and> examined (drop n tr) = []"
proof -
  have t1: "tr = (X @ [ev]) @ (lg # T)" unfolding tr by simp
  show "offered tr = [l]"
    unfolding t1 using X ev by (simp only: offered_append_inert [OF T] offered_snoc) simp
  have eT: "examined (lg # T) = []" using T by (rule examined_inert2)
  show "\<forall>n. offered (take n tr) \<noteq> [] \<longrightarrow>
           examined (take n tr) \<noteq> [] \<and> examined (drop n tr) = []"
  proof (intro allI impI)
    fix n
    assume off: "offered (take n tr) \<noteq> []"
    have n: "length X < n"
    proof (rule ccontr)
      assume "\<not> length X < n"
      then have "take n tr = take n X" unfolding tr by simp
      with offered_take [OF X(1), of n] off show False by simp
    qed
    then have tk: "take n tr = X @ take (n - length X) ([ev, lg] @ T)"
      unfolding tr by simp
    from n obtain k where k: "n - length X = Suc k" by (cases "n - length X") simp_all
    have dr: "drop n tr = drop k (lg # T)"
      unfolding tr using n k by simp
    have "examined (take n tr) \<noteq> []"
      unfolding tk using X(2) by (simp add: examined_append)
    moreover have "examined (drop n tr) = []"
      unfolding dr using eT by (rule examined_drop)
    ultimately show "examined (take n tr) \<noteq> [] \<and> examined (drop n tr) = []" ..
  qed
qed

lemma resolve_cases:
  fixes w :: world and trigger site :: string
  defines "run \<equiv> get_final_vcloud_download_link w trigger site"
  defines "tr \<equiv> trace (snd run)"
  defines "ny \<equiv> (\<lambda>ev. \<not> yields ev)"
  shows "(list_ex (\<lambda>ev. raised ev \<and> is_prologue ev) tr \<and> list_all inert tr \<and> list_all ny tr)
     \<or> (\<not> list_ex (\<lambda>ev. raised ev \<and> is_prologue ev) tr \<and> offered tr = [] \<and> list_all ny tr
          \<and> examined tr = concat (map identifiers server_priority))
     \<or> (\<not> list_ex (\<lambda>ev. raised ev \<and> is_prologue ev) tr
          \<and> (\<exists>l X ev msg T. tr = X @ [ev, (Log INFO msg l, Returned)] @ T
                \<and> msg \<in> set found_messages \<and> fst run = Inr (Some l)
                \<and> offered X = [] \<and> examined X \<noteq> [] \<and> offers (settled_end X) ev = Some l
                \<and> prefix (examined X) (concat (map identifiers server_priority))
                \<and> list_all ny (X @ [ev]) \<and> list_all inert T \<and> list_all ny T))"
proof -
  let ?L0 = "(Log INFO ''Getting final VCloud link from'' trigger, Returned)"
  let ?Lw = "(Log WARNING ''Using DUMMY VCloud link logic for'' trigger, Returned)"
  let ?bad = "\<lambda>ev. raised ev \<and> is_prologue ev"
  let ?ids = "concat (map identifiers server_priority)"
  from resolve_run [of w trigger site]
  obtain P R where P: "list_all is_prologue P" and R: "list_all closing R"
    and alt: "(list_ex raised P \<and> fst run = Inr None
        \<and> (\<exists>m. tr = ?L0 # P @ (Log ERROR m trigger, Returned) # R
              @ [(Log WARNING ''Could not retrieve a VCloud download link from'' trigger, Returned)]))
      \<or> (list_all (\<lambda>ev. \<not> raised ev) P
        \<and> (\<exists>S fl res F lst. search_run all_identifiers fl S \<and> fst run = Inr res
              \<and> tr = ?L0 # P @ ?Lw # S @ F @ R @ [lst]
              \<and> (if fl = None \<and> (str_in ''dummy-movie-site'' site \<or> str_in ''example.com'' site)
                  then F = [(Sleep 100, Returned), (Log WARNING ''Using DUMMY final link''
                              (trigger @ ''/final_vcloud_link_server1_dummy.mp4''), Returned)]
                       \<and> res = Some (trigger @ ''/final_vcloud_link_server1_dummy.mp4'')
                  else F = [] \<and> res = fl)
              \<and> (\<exists>lvl m a. lst = (Log lvl m a, Returned) \<and> m \<notin> set found_messages)
              \<and> (\<exists>c p s. result_var s = None \<and> trace s = ?L0 # P @ [?Lw]
                    \<and> for_servers w p c server_priority s
                        = (Inr (), s\<lparr>result_var := fl, trace := trace s @ S\<rparr>))))"
    unfolding tr_def run_def by blast
  have iP: "list_all inert P" using P by (auto simp: list_all_iff dest: inert_prologue)
  have iR: "list_all inert R" using R by (auto simp: list_all_iff dest: inert_closing)
  have yP: "list_all ny P" using no_yield_prologue [OF P] by (simp add: ny_def)
  have yR: "list_all ny R" using no_yield_closing [OF R] by (simp add: ny_def)
  have bR: "list_all (\<lambda>ev. \<not> ?bad ev) R"
    using R by (auto simp: list_all_iff dest: closing_inert)
  from alt show ?thesis
  proof (elim disjE exE conjE)
    fix m
    assume r: "list_ex raised P"
      and t: "tr = ?L0 # P @ (Log ERROR m trigger, Returned) # R
              @ [(Log WARNING ''Could not retrieve a VCloud download link from'' trigger, Returned)]"
    from r P have "list_ex ?bad P" by (auto simp: list_ex_iff list_all_iff)
    then have "list_ex ?bad tr" unfolding t by simp
    moreover have "list_all inert tr" unfolding t using iP iR by simp
    moreover have "list_all ny tr"
      unfolding t using yP yR by (simp add: ny_def found_messages_def)
    ultimately show ?thesis by blast
  next
    fix S fl res F lst lvl m a c p and s :: "string option frame"
    assume nr: "list_all (\<lambda>ev. \<not> raised ev) P"
      and S: "search_run all_identifiers fl S" and res: "fst run = Inr res"
      and t: "tr = ?L0 # P @ ?Lw # S @ F @ R @ [lst]"
      and F: "if fl = None \<and> (str_in ''dummy-movie-site'' site \<or> str_in ''example.com'' site)
                  then F = [(Sleep 100, Returned), (Log WARNING ''Using DUMMY final link''
                              (trigger @ ''/final_vcloud_link_server1_dummy.mp4''), Returned)]
                       \<and> res = Some (trigger @ ''/final_vcloud_link_server1_dummy.mp4'')
                  else F = [] \<and> res = fl"
      and lst: "lst = (Log lvl m a, Returned)" "m \<notin> set found_messages"
      and s: "result_var s = None" "trace s = ?L0 # P @ [?Lw]"
      and fs: "for_servers w p c server_priority s
                = (Inr (), s\<lparr>result_var := fl, trace := trace s @ S\<rparr>)"
    let ?W = "?L0 # P @ ?Lw # S"
    have iF: "list_all inert F" and yF: "list_all ny F" and eF: "examined F = []"
      and bF: "list_all (\<lambda>ev. \<not> ?bad ev) F"
      using F by (auto simp: ny_def examined_Cons found_messages_def split: if_splits)
    have ilst: "inert lst" and ylst: "ny lst" and blst: "\<not> ?bad lst"
      using lst by (simp_all add: ny_def)
    have iT: "list_all inert (F @ R @ [lst])" using iF iR ilst by simp
    have yT: "list_all ny (F @ R @ [lst])" using yF yR ylst by simp
    have tW: "tr = ?W @ (F @ R @ [lst])" unfolding t by simp
    have bS: "list_all (\<lambda>ev. \<not> ?bad ev) S"
      using S by (auto simp: search_run_def list_all_iff)
    have bP: "list_all (\<lambda>ev. \<not> ?bad ev) P" using nr by (auto simp: list_all_iff)
    have "list_all (\<lambda>ev. \<not> ?bad ev) tr"
      unfolding t using bP bS bF bR blst by simp
    then have nb: "\<not> list_ex ?bad tr" by (simp add: list_all_iff list_ex_iff)
    have eW: "examined ?W = examined S"
      using examined_prologue [OF P] by (simp add: examined_Cons examined_append)
    have "offered (?L0 # P @ [?Lw]) = []"
      using iP by (simp add: offered_def offered_from_inert)
    with s have "seeking s" by (simp add: seeking_def)
    from for_servers_offers [OF this fs]
    consider (found) "found_at (s\<lparr>result_var := fl, trace := trace s @ S\<rparr>)"
      | (none) "seeking (s\<lparr>result_var := fl, trace := trace s @ S\<rparr>)"
      by blast
    then show ?thesis
    proof cases
      case none
      with s have fl: "fl = None" and oW: "offered ?W = []" by (simp_all add: seeking_def)
      from S fl have eS: "examined S = ?ids" and yS: "list_all ny S"
        by (simp_all add: search_run_def all_identifiers_def ny_def)
      have "offered tr = []"
        unfolding tW using oW by (simp only: offered_append_inert [OF iT])
      moreover have "list_all ny tr"
        unfolding t using yP yS yF yR ylst by (simp add: ny_def found_messages_def)
      moreover have "examined tr = ?ids"
        unfolding tW using eW eS examined_inert2 [OF iT] by (simp only: examined_append) simp
      ultimately show ?thesis using nb by blast
    next
      case found
      with s obtain l X ev msg where fl: "fl = Some l" "l \<noteq> []"
        and W: "?W = X @ [ev, (Log INFO msg l, Returned)]"
        and X: "offered X = []" "examined X \<noteq> []" "offers (settled_end X) ev = Some l"
        unfolding found_at_def by auto
      from S fl have pS: "prefix (examined S) ?ids" and fe: "found_end (Some l) S"
        by (simp_all add: search_run_def all_identifiers_def)
      from fe obtain msg0 where S0: "S \<noteq> []" "msg0 \<in> set found_messages"
        "last S = (Log INFO msg0 l, Returned)" "list_all ny (butlast S)"
        by (auto simp: found_end_def ny_def)
      have "last ?W = last S" using S0(1) by simp
      with W S0(3) have msg: "msg = msg0" by simp
      have "butlast ?W = ?L0 # P @ ?Lw # butlast S" using S0(1) by (simp add: butlast_append)
      moreover have "butlast ?W = X @ [ev]" unfolding W by (simp add: butlast_append)
      ultimately have XS: "X @ [ev] = ?L0 # P @ ?Lw # butlast S" by simp
      have yX: "list_all ny (X @ [ev])"
        unfolding XS using yP S0(4) by (simp add: ny_def found_messages_def)
      have "examined ?W = examined X"
        unfolding W using offers_examines [OF X(3)] by (simp add: examined_append examined_Cons)
      with eW pS have pX: "prefix (examined X) ?ids" by simp
      from F fl have FR: "F = []" "res = Some l" by (simp_all split: if_splits)
      have t': "tr = X @ [ev, (Log INFO msg l, Returned)] @ (R @ [lst])"
        unfolding tW W FR by simp
      have "list_all inert (R @ [lst])" "list_all ny (R @ [lst])"
        using iR ilst yR ylst by simp_all
      with t' msg S0(2) res FR X pX yX nb show ?thesis by blast
    qed
  qed
qed

text \<open>
  Claim C1. In every run of \<open>get_final_vcloud_download_link\<close> the identifiers are
  examined in the order of the static list, the tiers \<open>Server One\<close>,
  \<open>FSL Server\<close>, \<open>10 Gbps Server\<close> one after the other: the examined identifiers
  are a prefix of the concatenated list. The usable links are those that the pages offer
  (\<open>offered\<close>, read from the answers of the environment). At every point of a run at
  which a link has been offered, an identifier has been examined before and none is
  examined afterwards, so an offer in one tier keeps every later tier unexamined. The first
  offer is the only one and its link is the result. When the acquisition of the session, the
  navigation or the dwell raised, no identifier is examined; otherwise, when no link is
  offered, every identifier of every tier is examined, so a later tier is reached whenever
  the earlier ones yield nothing. The log lines of a find agree with the offers: there is
  one exactly when a link was offered, no identifier is examined from it on, and its link
  is the result.
\<close>

theorem servers_examined_in_priority_order:
  fixes w :: world and trigger site :: string
  defines "run \<equiv> get_final_vcloud_download_link w trigger site"
  defines "tr \<equiv> trace (snd run)"
  shows "prefix (examined tr) (concat (map identifiers server_priority))
     \<and> map name server_priority = [''Server One'', ''FSL Server'', ''10 Gbps Server'']
     \<and> (\<forall>n. offered (take n tr) \<noteq> [] \<longrightarrow>
           examined (take n tr) \<noteq> [] \<and> examined (drop n tr) = [])
     \<and> (\<forall>l \<in> set (offered tr). offered tr = [l] \<and> fst run = Inr (Some l))
     \<and> (list_ex (\<lambda>ev. raised ev \<and> is_prologue ev) tr \<longrightarrow>
           examined tr = [] \<and> offered tr = [])
     \<and> (\<not> list_ex (\<lambda>ev. raised ev \<and> is_prologue ev) tr \<and> offered tr = [] \<longrightarrow>
           examined tr = concat (map identifiers server_priority))
     \<and> ((\<forall>ev \<in> set tr. \<not> yields ev) \<longleftrightarrow> offered tr = [])
     \<and> examined (dropWhile (\<lambda>ev. \<not> yields ev) tr) = []
     \<and> (\<forall>msg l. (Log INFO msg l, Returned) \<in> set tr \<and> msg \<in> set found_messages \<longrightarrow>
           fst run = Inr (Some l))"
proof -
  let ?ny = "\<lambda>ev. \<not> yields ev"
  let ?bad = "\<lambda>ev. raised ev \<and> is_prologue ev"
  let ?ids = "concat (map identifiers server_priority)"
  have names: "map name server_priority = [''Server One'', ''FSL Server'', ''10 Gbps Server'']"
    by (simp add: server_priority_def)
  text \<open>A run without a log line of a find.\<close>
  have quiet_logs: "examined (dropWhile ?ny tr) = []
      \<and> (\<forall>msg l. (Log INFO msg l, Returned) \<in> set tr \<and> msg \<in> set found_messages \<longrightarrow>
           fst run = Inr (Some l))
      \<and> (\<forall>ev \<in> set tr. \<not> yields ev)"
    if y: "list_all ?ny tr"
  proof -
    from y have "examined (dropWhile ?ny tr) = []" by (simp only: dropWhile_all examined_Nil)
    moreover from y have "\<not> yields (Log INFO msg l, Returned)"
      if "(Log INFO msg l, Returned) \<in> set tr" for msg l
      using that by (auto simp: list_all_iff)
    then have "(Log INFO msg l, Returned) \<in> set tr \<and> msg \<in> set found_messages \<longrightarrow>
           fst run = Inr (Some l)" for msg l
      by auto
    moreover from y have "\<forall>ev \<in> set tr. \<not> yields ev" by (simp add: list_all_iff)
    ultimately show ?thesis by blast
  qed
  let ?c3 = "\<forall>n. offered (take n tr) \<noteq> [] \<longrightarrow>
           examined (take n tr) \<noteq> [] \<and> examined (drop n tr) = []"
  let ?c4 = "\<forall>l \<in> set (offered tr). offered tr = [l] \<and> fst run = Inr (Some l)"
  let ?c5 = "list_ex ?bad tr \<longrightarrow> examined tr = [] \<and> offered tr = []"
  let ?c6 = "\<not> list_ex ?bad tr \<and> offered tr = [] \<longrightarrow> examined tr = ?ids"
  let ?c7 = "(\<forall>ev \<in> set tr. \<not> yields ev) \<longleftrightarrow> offered tr = []"
  let ?c8 = "examined (dropWhile ?ny tr) = []"
  let ?c9 = "\<forall>msg l. (Log INFO msg l, Returned) \<in> set tr \<and> msg \<in> set found_messages \<longrightarrow>
           fst run = Inr (Some l)"
  have silent: "?c3 \<and> ?c4 \<and> ?c7 \<and> ?c8 \<and> ?c9"
    if o: "offered tr = []" and y: "list_all ?ny tr"
  proof -
    from quiet_logs [OF y] have "?c8" "?c9" "\<forall>ev \<in> set tr. \<not> yields ev" by blast+
    moreover from this(3) o have "?c7" by simp
    moreover note nothing_offered(1) [OF o] nothing_offered(2) [OF o, where r = "fst run"]
    ultimately show ?thesis by blast
  qed
  from resolve_cases [of w trigger site]
  have "(list_ex ?bad tr \<and> list_all inert tr \<and> list_all ?ny tr)
     \<or> (\<not> list_ex ?bad tr \<and> offered tr = [] \<and> list_all ?ny tr \<and> examined tr = ?ids)
     \<or> (\<not> list_ex ?bad tr
          \<and> (\<exists>l X ev msg T. tr = X @ [ev, (Log INFO msg l, Returned)] @ T
                \<and> msg \<in> set found_messages \<and> fst run = Inr (Some l)
                \<and> offered X = [] \<and> examined X \<noteq> [] \<and> offers (settled_end X) ev = Some l
                \<and> prefix (examined X) ?ids
                \<and> list_all ?ny (X @ [ev]) \<and> list_all inert T \<and> list_all ?ny T))"
    unfolding tr_def run_def .
  then have "prefix (examined tr) ?ids \<and> ?c3 \<and> ?c4 \<and> ?c5 \<and> ?c6 \<and> ?c7 \<and> ?c8 \<and> ?c9"
  proof (elim disjE exE conjE)
    assume bad: "list_ex ?bad tr" and i: "list_all inert tr" and y: "list_all ?ny tr"
    have e: "examined tr = []" using i by (rule examined_inert2)
    have o: "offered tr = []" using i by (simp add: offered_def offered_from_inert)
    from e have "prefix (examined tr) ?ids" by simp
    moreover from e o have "?c5" by simp
    moreover from bad have "?c6" by simp
    moreover note silent [OF o y]
    ultimately show ?thesis by blast
  next
    assume nb: "\<not> list_ex ?bad tr" and o: "offered tr = []" and y: "list_all ?ny tr"
      and e: "examined tr = ?ids"
    from e have "prefix (examined tr) ?ids" by simp
    moreover from nb have "?c5" by simp
    moreover from e have "?c6" by simp
    moreover note silent [OF o y]
    ultimately show ?thesis by blast
  next
    fix l X ev msg T
    assume nb: "\<not> list_ex ?bad tr"
      and t: "tr = X @ [ev, (Log INFO msg l, Returned)] @ T"
      and msg: "msg \<in> set found_messages" and res: "fst run = Inr (Some l)"
      and X: "offered X = []" "examined X \<noteq> []" "offers (settled_end X) ev = Some l"
      and pX: "prefix (examined X) ?ids"
      and yX: "list_all ?ny (X @ [ev])" and iT0: "list_all inert T" and yT: "list_all ?ny T"
    let ?lg = "(Log INFO msg l, Returned)"
    have iT: "list_all inert (?lg # T)" using iT0 by simp
    note one = one_offered [OF t X iT]
    have eT: "examined (?lg # T) = []" using iT by (rule examined_inert2)
    have e: "examined tr = examined X"
      unfolding t using eT offers_examines [OF X(3)]
      by (simp add: examined_append examined_Cons)
    have hit: "\<not> ?ny ?lg" using msg by simp
    have t': "tr = (X @ [ev]) @ ?lg # T" unfolding t by simp
    have "dropWhile ?ny tr = ?lg # T"
      unfolding t' using yX hit by (rule dropWhile_hit)
    with eT have c8: "?c8" by simp
    have only_hit: "l' = l"
      if "(Log INFO msg' l', Returned) \<in> set tr" "msg' \<in> set found_messages" for msg' l'
    proof -
      have y: "yields (Log INFO msg' l', Returned)" using that by simp
      from that(1) have "(Log INFO msg' l', Returned) \<in> set (X @ [ev])
          \<or> (Log INFO msg' l', Returned) = ?lg \<or> (Log INFO msg' l', Returned) \<in> set T"
        unfolding t by auto
      moreover have "\<not> yields e'" if "e' \<in> set (X @ [ev]) \<or> e' \<in> set T" for e'
        using that yX yT unfolding list_all_iff by blast
      ultimately have "(Log INFO msg' l', Returned) = ?lg" using y by blast
      then show ?thesis by simp
    qed
    have "?lg \<in> set tr" unfolding t by simp
    moreover have "yields ?lg" using msg by simp
    ultimately have ex: "\<exists>e' \<in> set tr. yields e'" by blast
    have c1: "prefix (examined tr) ?ids" using e pX by simp
    have c4: "?c4" using one(1) res by simp
    have c5: "?c5" using nb by simp
    have c6: "?c6" using one(1) by simp
    have c7: "?c7" using ex one(1) by auto
    have c9: "?c9" using only_hit res by blast
    from c1 one(2) c4 c5 c6 c7 c8 c9 show ?thesis by blast
  qed
  with names show ?thesis by blast
qed

lemmas offer_defs = offered_def direct_url_def endswith_def suffix_to_prefix examined_Cons

lemma page_direct_trace:
  "trace (snd (get_final_vcloud_download_link page_direct
       ''https://films.example.net/t/1'' ''https://films.example.net'')) =
   [(Log INFO ''Getting final VCloud link from'' ''https://films.example.net/t/1'', Returned),
    (PwStart, RetHandle 1), (Launch 1, RetHandle 2), (NewContext 2, RetHandle 3),
    (Route 3, Returned), (OnPage 3, Returned), (NewPage 3, RetHandle 6),
    (Goto 6 ''https://films.example.net/t/1'', Returned),
    (WaitForTimeout 6 7000, Returned),
    (Log WARNING ''Using DUMMY VCloud link logic for'' ''https://films.example.net/t/1'', Returned),
    (Log DEBUG ''Trying server'' ''Server One'', Returned),
    (IsVisible 6 (ServerElement (Literal ''Server One'')), RetBool True),
    (Log INFO ''Found element for'' ''Server One'', Returned),
    (GetAttribute 6 (ServerElement (Literal ''Server One'')) ''href'', RetOpt None),
    (Log INFO ''Clicking element for'' ''Server One'', Returned),
    (PageUrl 6, RetStr ''https://cdn.example.net/movie.mp4''),
    (Click 6 (ServerElement (Literal ''Server One'')), Returned),
    (ExpectPage 3, Returned), (ContextPages 3, Returned),
    (WaitForLoadState 6, Returned), (WaitForTimeout 6 5000, Returned),
    (PageUrl 6, RetStr ''https://cdn.example.net/movie.mp4''),
    (Log INFO ''Page URL is direct link'' ''https://cdn.example.net/movie.mp4'', Returned),
    (ContextClose 3, Returned), (BrowserClose 2, Returned),
    (Log INFO ''Final VCloud download link'' ''https://cdn.example.net/movie.mp4'', Returned)]"
  by (simp add: resolve_defs io_defs session_defs world_defs page_direct_def lower_def
        lower_char_def)

theorem servers_examined_in_priority_order_witness:
  "examined (trace (snd (get_final_vcloud_download_link quiet
       ''https://films.example.net/t/1'' ''https://films.example.net'')))
     = concat (map identifiers server_priority)
   \<and> fst (get_final_vcloud_download_link fsl_direct
       ''https://films.example.net/t/1'' ''https://films.example.net'')
     = Inr (Some ''https://cdn.example.net/movie.mp4'')
   \<and> examined (drop 19 (trace (snd (get_final_vcloud_download_link fsl_direct
       ''https://films.example.net/t/1'' ''https://films.example.net'')))) = []
   \<and> fst (get_final_vcloud_download_link page_direct
       ''https://films.example.net/t/1'' ''https://films.example.net'')
     = Inr (Some ''https://cdn.example.net/movie.mp4'')
   \<and> examined (drop 22 (trace (snd (get_final_vcloud_download_link page_direct
       ''https://films.example.net/t/1'' ''https://films.example.net'')))) = []
   \<and> examined (trace (snd (get_final_vcloud_download_link page_direct
       ''https://films.example.net/t/1'' ''https://films.example.net'')))
     = [Literal ''Server One'']
   \<and> examined (trace (snd (get_final_vcloud_download_link (failing_at 7 PlaywrightTimeoutError)
       ''https://films.example.net/t/1'' ''https://films.example.net''))) = []"
proof -
  let ?q = "get_final_vcloud_download_link quiet
       ''https://films.example.net/t/1'' ''https://films.example.net''"
  let ?f = "get_final_vcloud_download_link fsl_direct
       ''https://films.example.net/t/1'' ''https://films.example.net''"
  let ?d = "get_final_vcloud_download_link page_direct
       ''https://films.example.net/t/1'' ''https://films.example.net''"
  let ?g = "get_final_vcloud_download_link (failing_at 7 PlaywrightTimeoutError)
       ''https://films.example.net/t/1'' ''https://films.example.net''"
  let ?bad = "\<lambda>ev. raised ev \<and> is_prologue ev"
  have q1: "\<forall>ev \<in> set (trace (snd ?q)). \<not> yields ev"
    by (simp add: resolve_defs io_defs session_defs world_defs found_messages_def)
  have q2: "\<not> list_ex ?bad (trace (snd ?q))"
    by (simp add: resolve_defs io_defs session_defs world_defs)
  have f1: "(Log INFO ''Found direct link from attribute'' ''https://cdn.example.net/movie.mp4'', Returned)
      \<in> set (trace (snd ?f))"
    by (simp add: resolve_defs io_defs session_defs world_defs fsl_direct_def)
  have f2: "''Found direct link from attribute'' \<in> set found_messages"
    by (simp add: found_messages_def)
  have f3: "offered (take 19 (trace (snd ?f))) \<noteq> []"
    by (simp add: resolve_defs io_defs session_defs world_defs fsl_direct_def offer_defs)
  have d1: "''https://cdn.example.net/movie.mp4'' \<in> set (offered (trace (snd ?d)))"
    unfolding page_direct_trace by (simp add: offer_defs)
  have d2: "offered (take 22 (trace (snd ?d))) \<noteq> []"
    unfolding page_direct_trace by (simp add: offer_defs)
  have d3: "examined (trace (snd ?d)) = [Literal ''Server One'']"
    unfolding page_direct_trace by (simp add: offer_defs)
  have g1: "list_ex ?bad (trace (snd ?g))"
    by (simp add: resolve_defs io_defs session_defs world_defs)
  note q = servers_examined_in_priority_order [of quiet "''https://films.example.net/t/1''"
      "''https://films.example.net''"]
  note f = servers_examined_in_priority_order [of fsl_direct "''https://films.example.net/t/1''"
      "''https://films.example.net''"]
  note d = servers_examined_in_priority_order [of page_direct "''https://films.example.net/t/1''"
      "''https://films.example.net''"]
  note g = servers_examined_in_priority_order [of "failing_at 7 PlaywrightTimeoutError"
      "''https://films.example.net/t/1''" "''https://films.example.net''"]
  from q q1 have "offered (trace (snd ?q)) = []" by blast
  with q q2 have "examined (trace (snd ?q)) = concat (map identifiers server_priority)" by blast
  moreover from f f1 f2 have "fst ?f = Inr (Some ''https://cdn.example.net/movie.mp4'')" by blast
  moreover from f f3 have "examined (drop 19 (trace (snd ?f))) = []" by blast
  moreover from d d1 have "fst ?d = Inr (Some ''https://cdn.example.net/movie.mp4'')" by blast
  moreover from d d2 have "examined (drop 22 (trace (snd ?d))) = []" by blast
  moreover from g g1 have "examined (trace (snd ?g)) = []" by blast
  ultimately show ?thesis using d3 by blast
qed

subsection \<open>The placeholder link\<close>

text \<open>
  The last part of claim C9 fails as stated: for a placeholder site the result is absent
  when the navigation raises, because the exception skips the fallback.
\<close>

theorem placeholder_site_absent_counterexample:
  "str_in ''dummy-movie-site'' ''https://dummy-movie-site-alpha.com''
   \<and> fst (get_final_vcloud_download_link (failing_at 7 PlaywrightTimeoutError)
          ''https://dummy-movie-site-alpha.com/movie/x/download?q=720&l=eng''
          ''https://dummy-movie-site-alpha.com'') = Inr None"
  by (simp add: get_final_vcloud_download_link_def io_defs session_defs world_defs)

text \<open>
  Claim C9, as amended. For a source site that contains \<open>dummy-movie-site\<close> or
  \<open>example.com\<close>, the result is absent exactly when the acquisition of the session,
  the navigation or the dwell before the server search raised; when none of them raised
  and the server search found no link, the result is the trigger URL followed by
  \<open>/final_vcloud_link_server1_dummy.mp4\<close>.
\<close>

theorem placeholder_link_unless_prologue_raised:
  fixes w :: world and trigger site :: string
  defines "run \<equiv> get_final_vcloud_download_link w trigger site"
  assumes site: "str_in ''dummy-movie-site'' site \<or> str_in ''example.com'' site"
  shows "(fst run = Inr None \<longleftrightarrow> (\<exists>ev \<in> set (trace (snd run)). is_prologue ev \<and> raised ev))
     \<and> ((\<forall>ev \<in> set (trace (snd run)). \<not> (is_prologue ev \<and> raised ev) \<and> \<not> yields ev) \<longrightarrow>
           fst run = Inr (Some (trigger @ ''/final_vcloud_link_server1_dummy.mp4'')))"
proof -
  let ?tr = "trace (snd run)"
  let ?bad = "\<lambda>ev. is_prologue ev \<and> raised ev"
  from resolve_shape [of w trigger site]
  obtain P R where P: "list_all is_prologue P" and R: "list_all closing R"
    and alt: "(list_ex raised P \<and> fst run = Inr None
        \<and> (\<exists>m. ?tr =
              (Log INFO ''Getting final VCloud link from'' trigger, Returned) # P
              @ (Log ERROR m trigger, Returned) # R
              @ [(Log WARNING ''Could not retrieve a VCloud download link from'' trigger, Returned)]))
      \<or> (list_all (\<lambda>ev. \<not> raised ev) P
        \<and> (\<exists>S fl res F lst. search_run all_identifiers fl S \<and> fst run = Inr res
              \<and> ?tr =
                  (Log INFO ''Getting final VCloud link from'' trigger, Returned) # P
                  @ (Log WARNING ''Using DUMMY VCloud link logic for'' trigger, Returned) # S
                  @ F @ R @ [lst]
              \<and> (if fl = None \<and> (str_in ''dummy-movie-site'' site \<or> str_in ''example.com'' site)
                  then F = [(Sleep 100, Returned), (Log WARNING ''Using DUMMY final link''
                              (trigger @ ''/final_vcloud_link_server1_dummy.mp4''), Returned)]
                       \<and> res = Some (trigger @ ''/final_vcloud_link_server1_dummy.mp4'')
                  else F = [] \<and> res = fl)
              \<and> (\<exists>lvl m a. lst = (Log lvl m a, Returned) \<and> m \<notin> set found_messages)))"
    unfolding run_def by blast
  from alt show ?thesis
  proof (elim disjE exE conjE)
    fix m
    assume r: "list_ex raised P" and res: "fst run = Inr None"
      and t: "?tr = (Log INFO ''Getting final VCloud link from'' trigger, Returned) # P
              @ (Log ERROR m trigger, Returned) # R
              @ [(Log WARNING ''Could not retrieve a VCloud download link from'' trigger, Returned)]"
    from r P obtain ev where "ev \<in> set P" "raised ev" "is_prologue ev"
      by (auto simp: list_ex_iff list_all_iff)
    then have "\<exists>ev \<in> set ?tr. ?bad ev" unfolding t by auto
    with res show ?thesis by auto
  next
    fix S fl res F lst lvl m a
    assume nr: "list_all (\<lambda>ev. \<not> raised ev) P"
      and S: "search_run all_identifiers fl S" and res: "fst run = Inr res"
      and t: "?tr = (Log INFO ''Getting final VCloud link from'' trigger, Returned) # P
                  @ (Log WARNING ''Using DUMMY VCloud link logic for'' trigger, Returned) # S
                  @ F @ R @ [lst]"
      and F: "if fl = None \<and> (str_in ''dummy-movie-site'' site \<or> str_in ''example.com'' site)
                  then F = [(Sleep 100, Returned), (Log WARNING ''Using DUMMY final link''
                              (trigger @ ''/final_vcloud_link_server1_dummy.mp4''), Returned)]
                       \<and> res = Some (trigger @ ''/final_vcloud_link_server1_dummy.mp4'')
                  else F = [] \<and> res = fl"
      and lst: "lst = (Log lvl m a, Returned)" "m \<notin> set found_messages"
    have "\<not> ?bad ev" if "ev \<in> set ?tr" for ev
    proof -
      from that have "ev = (Log INFO ''Getting final VCloud link from'' trigger, Returned)
          \<or> ev \<in> set P
          \<or> ev = (Log WARNING ''Using DUMMY VCloud link logic for'' trigger, Returned)
          \<or> ev \<in> set S \<or> ev \<in> set F \<or> ev \<in> set R \<or> ev = lst"
        unfolding t by auto
      moreover have "\<not> raised ev" if "ev \<in> set P" using that nr by (auto simp: list_all_iff)
      moreover have "\<not> is_prologue ev" if "ev \<in> set S"
        using that S by (auto simp: search_run_def list_all_iff)
      moreover have "\<not> is_prologue ev" if "ev \<in> set R"
        using that R by (auto simp: list_all_iff dest: closing_inert)
      moreover have "\<not> is_prologue ev" if "ev \<in> set F"
        using that F by (auto split: if_splits)
      moreover have "\<not> is_prologue lst" using lst by simp
      ultimately show ?thesis by auto
    qed
    then have nobad: "\<not> (\<exists>ev \<in> set ?tr. ?bad ev)" by blast
    have some: "res \<noteq> None"
    proof (cases fl)
      case None
      with F site show ?thesis by simp
    next
      case (Some l)
      with F show ?thesis by simp
    qed
    have "res = Some (trigger @ ''/final_vcloud_link_server1_dummy.mp4'')"
      if ny: "\<forall>ev \<in> set ?tr. \<not> yields ev"
    proof (cases fl)
      case None
      with F site show ?thesis by simp
    next
      case (Some l)
      with S have "found_end (Some l) S" by (simp add: search_run_def)
      then have "S \<noteq> []" "yields (last S)" by (auto simp: found_end_def)
      then have "\<exists>ev \<in> set S. yields ev" using last_in_set by blast
      then have "\<exists>ev \<in> set ?tr. yields ev" unfolding t by auto
      with ny show ?thesis by blast
    qed
    with nobad some res show ?thesis by auto
  qed
qed

theorem placeholder_link_unless_prologue_raised_witness:
  "(str_in ''dummy-movie-site'' ''https://dummy-movie-site-alpha.com''
      \<or> str_in ''example.com'' ''https://dummy-movie-site-alpha.com'')
   \<and> fst (get_final_vcloud_download_link quiet ''https://dummy-movie-site-alpha.com/m/x''
          ''https://dummy-movie-site-alpha.com'')
      = Inr (Some ''https://dummy-movie-site-alpha.com/m/x/final_vcloud_link_server1_dummy.mp4'')"
proof -
  let ?run = "get_final_vcloud_download_link quiet ''https://dummy-movie-site-alpha.com/m/x''
          ''https://dummy-movie-site-alpha.com''"
  have site: "str_in ''dummy-movie-site'' ''https://dummy-movie-site-alpha.com''
      \<or> str_in ''example.com'' ''https://dummy-movie-site-alpha.com''"
    by simp
  have q: "\<forall>ev \<in> set (trace (snd ?run)). \<not> (is_prologue ev \<and> raised ev) \<and> \<not> yields ev"
    by (simp add: resolve_defs io_defs session_defs world_defs found_messages_def)
  from placeholder_link_unless_prologue_raised [OF site, of quiet "''https://dummy-movie-site-alpha.com/m/x''"] q
  have "fst ?run = Inr (Some (''https://dummy-movie-site-alpha.com/m/x'' @ ''/final_vcloud_link_server1_dummy.mp4''))"
    by blast
  with site show ?thesis by simp
qed

section \<open>Site search\<close>

subsection \<open>Filling and submitting the search\<close>

lemma only_fill_inputs: "only interaction (fill_inputs w page site_url movie_name inputs)"
proof (induction inputs)
  case Nil
  show ?case by (simp add: only_return)
next
  case (Cons s_input rest)
  show ?case
    unfolding fill_inputs.simps
    by (intro only_intros Cons) (simp_all add: interaction_messages_def)
qed

lemma only_fill_search_bar: "only interaction (fill_search_bar w page site_url movie_name)"
  unfolding fill_search_bar_def
  by (intro only_intros only_fill_inputs) (simp_all add: interaction_messages_def)

lemma only_submit_search: "only interaction (submit_search w page site_url)"
  unfolding submit_search_def
  by (intro only_intros) (simp_all add: interaction_messages_def)

subsection \<open>Straight-line pieces\<close>

lemma leads_refl: "leads P k k"
  unfolding leads_def
proof
  fix s
  have "k s = k (s\<lparr>trace := trace s @ []\<rparr>)" by simp
  then show "\<exists>M. list_all P M \<and>
        ((\<exists>e. k s = (Inl e, s\<lparr>trace := trace s @ M\<rparr>)) \<or> k s = k (s\<lparr>trace := trace s @ M\<rparr>))"
    by (intro exI [of _ "[]"]) simp
qed

lemma leads_bind:
  assumes "only P m" and "\<And>x. leads P (f x) k"
  shows "leads P (bind_io m f) k"
  unfolding leads_def
proof
  fix s
  from assms(1) obtain r M where m: "m s = (r, s\<lparr>trace := trace s @ M\<rparr>)" "list_all P M"
    by (rule onlyE)
  show "\<exists>M. list_all P M \<and>
        ((\<exists>e. bind_io m f s = (Inl e, s\<lparr>trace := trace s @ M\<rparr>))
         \<or> bind_io m f s = k (s\<lparr>trace := trace s @ M\<rparr>))"
  proof (cases r)
    case (Inl e)
    with m show ?thesis by (intro exI [of _ M]) (simp add: bind_io_def)
  next
    case (Inr x)
    from assms(2) [of x] have "\<exists>M'. list_all P M' \<and>
        ((\<exists>e. f x (s\<lparr>trace := trace s @ M\<rparr>)
               = (Inl e, s\<lparr>trace := trace s @ M\<rparr>\<lparr>trace := trace (s\<lparr>trace := trace s @ M\<rparr>) @ M'\<rparr>))
         \<or> f x (s\<lparr>trace := trace s @ M\<rparr>)
               = k (s\<lparr>trace := trace s @ M\<rparr>\<lparr>trace := trace (s\<lparr>trace := trace s @ M\<rparr>) @ M'\<rparr>))"
      unfolding leads_def by (rule allE)
    then obtain M' where M': "list_all P M'"
      and alt: "(\<exists>e. f x (s\<lparr>trace := trace s @ M\<rparr>) = (Inl e, s\<lparr>trace := trace s @ M @ M'\<rparr>))
         \<or> f x (s\<lparr>trace := trace s @ M\<rparr>) = k (s\<lparr>trace := trace s @ M @ M'\<rparr>)"
      by auto
    from m Inr have "bind_io m f s = f x (s\<lparr>trace := trace s @ M\<rparr>)"
      by (simp add: bind_io_def)
    with alt M' m(2) show ?thesis
      by (intro exI [of _ "M @ M'"]) auto
  qed
qed

subsection \<open>One attempt\<close>

lemma acquire_shape:
  "\<exists>out P'. list_all acq_event P' \<and> length (filter is_launch P') \<le> 1 \<and>
     ((\<exists>e. acquire w None s = (Inl e, s\<lparr>trace := trace s @ (PwStart, out) # P'\<rparr>))
      \<or> (\<exists>pw b c p. acquire w None s
            = (Inr (c, p), s\<lparr>playwright_var := Some pw, browser_var := Some b,
                              context_var := Some c, trace := trace s @ (PwStart, out) # P'\<rparr>)
          \<and> (Launch pw, RetHandle b) \<in> set P' \<and> (NewContext b, RetHandle c) \<in> set P'))"
proof -
  let ?n = "length (trace s)"
  consider (a) e where "raises w ?n = Some e"
    | (b) e where "raises w ?n = None" "raises w (Suc ?n) = Some e"
    | (c) e where "raises w ?n = None" "raises w (Suc ?n) = None" "raises w (Suc (Suc ?n)) = Some e"
    | (d) e where "raises w ?n = None" "raises w (Suc ?n) = None" "raises w (Suc (Suc ?n)) = None"
              "raises w (Suc (Suc (Suc ?n))) = Some e"
    | (e) e where "raises w ?n = None" "raises w (Suc ?n) = None" "raises w (Suc (Suc ?n)) = None"
              "raises w (Suc (Suc (Suc ?n))) = None" "raises w (Suc (Suc (Suc (Suc ?n)))) = Some e"
    | (f) e where "raises w ?n = None" "raises w (Suc ?n) = None" "raises w (Suc (Suc ?n)) = None"
              "raises w (Suc (Suc (Suc ?n))) = None" "raises w (Suc (Suc (Suc (Suc ?n)))) = None"
              "raises w (Suc (Suc (Suc (Suc (Suc ?n))))) = Some e"
    | (g) "raises w ?n = None" "raises w (Suc ?n) = None" "raises w (Suc (Suc ?n)) = None"
              "raises w (Suc (Suc (Suc ?n))) = None" "raises w (Suc (Suc (Suc (Suc ?n)))) = None"
              "raises w (Suc (Suc (Suc (Suc (Suc ?n))))) = None"
    by (metis option.exhaust)
  then show ?thesis
  proof cases
    case a
    then show ?thesis
      by (intro exI [of _ "Raised e"] exI [of _ "[]"])
         (simp add: acquire_def get_playwright_page_def io_defs)
  next
    case b
    then show ?thesis
      by (intro exI [of _ "RetHandle ?n"] exI [of _ "[(Launch ?n, Raised e)]"])
         (simp add: acquire_def get_playwright_page_def io_defs)
  next
    case c
    then show ?thesis
      by (intro exI [of _ "RetHandle ?n"]
            exI [of _ "[(Launch ?n, RetHandle (Suc ?n)), (NewContext (Suc ?n), Raised e)]"])
         (simp add: acquire_def get_playwright_page_def io_defs)
  next
    case d
    then show ?thesis
      by (intro exI [of _ "RetHandle ?n"]
            exI [of _ "[(Launch ?n, RetHandle (Suc ?n)),
                        (NewContext (Suc ?n), RetHandle (Suc (Suc ?n))),
                        (Route (Suc (Suc ?n)), Raised e)]"])
         (simp add: acquire_def get_playwright_page_def io_defs)
  next
    case e
    then show ?thesis
      by (intro exI [of _ "RetHandle ?n"]
            exI [of _ "[(Launch ?n, RetHandle (Suc ?n)),
                        (NewContext (Suc ?n), RetHandle (Suc (Suc ?n))),
                        (Route (Suc (Suc ?n)), Returned),
                        (OnPage (Suc (Suc ?n)), Raised e)]"])
         (simp add: acquire_def get_playwright_page_def io_defs)
  next
    case f
    then show ?thesis
      by (intro exI [of _ "RetHandle ?n"]
            exI [of _ "[(Launch ?n, RetHandle (Suc ?n)),
                        (NewContext (Suc ?n), RetHandle (Suc (Suc ?n))),
                        (Route (Suc (Suc ?n)), Returned),
                        (OnPage (Suc (Suc ?n)), Returned),
                        (NewPage (Suc (Suc ?n)), Raised e)]"])
         (simp add: acquire_def get_playwright_page_def io_defs)
  next
    case g
    let ?P = "[(Launch ?n, RetHandle (Suc ?n)),
               (NewContext (Suc ?n), RetHandle (Suc (Suc ?n))),
               (Route (Suc (Suc ?n)), Returned),
               (OnPage (Suc (Suc ?n)), Returned),
               (NewPage (Suc (Suc ?n)), RetHandle (Suc (Suc (Suc (Suc (Suc ?n))))))]"
    from g have "acquire w None s
        = (Inr (Suc (Suc ?n), Suc (Suc (Suc (Suc (Suc ?n))))),
           s\<lparr>playwright_var := Some ?n, browser_var := Some (Suc ?n),
             context_var := Some (Suc (Suc ?n)), trace := trace s @ (PwStart, RetHandle ?n) # ?P\<rparr>)"
      by (simp add: acquire_def get_playwright_page_def io_defs)
    moreover have "list_all acq_event ?P" "length (filter is_launch ?P) \<le> 1"
      "(Launch ?n, RetHandle (Suc ?n)) \<in> set ?P"
      "(NewContext (Suc ?n), RetHandle (Suc (Suc ?n))) \<in> set ?P"
      by simp_all
    ultimately show ?thesis by blast
  qed
qed

lemma close_shape:
  "\<exists>R. close_playwright_resources w (Some b) (Some c) s = (Inr (), s\<lparr>trace := trace s @ R\<rparr>)
     \<and> list_all closing R
     \<and> (\<exists>o1. (ContextClose c, o1) \<in> set R) \<and> (\<exists>o2. (BrowserClose b, o2) \<in> set R)"
proof -
  let ?n = "length (trace s)"
  let ?c = "case raises w ?n of None \<Rightarrow> [(ContextClose c, Returned)]
            | Some e \<Rightarrow> [(ContextClose c, Raised e), (Log ERROR ''Error closing context'' [], Returned)]"
  let ?m = "?n + length ?c"
  let ?b = "case raises w ?m of None \<Rightarrow> [(BrowserClose b, Returned)]
            | Some e \<Rightarrow> [(BrowserClose b, Raised e), (Log ERROR ''Error closing browser'' [], Returned)]"
  show ?thesis
    by (intro exI [of _ "?c @ ?b"])
       (auto simp: close_playwright_resources_def io_defs split: option.splits)
qed

lemma prefix_str_in: "prefix pat s \<Longrightarrow> str_in pat s"
  by (cases s) auto

lemma looks_redirected_iff: "looks_redirected site u \<longleftrightarrow> \<not> str_in site u"
  by (auto simp: looks_redirected_def startswith_def dest: prefix_str_in)

lemma after_submit_spec:
  assumes "browser_var s = Some b" and "context_var s = Some cx" and "result_var s = []"
  shows "\<exists>u.
    (if \<not> str_in site u \<and> a < max_retries
     then \<exists>R. after_submit w site q a page s
            = (Inr Continue, s\<lparr>browser_var := None, playwright_var := None,
                 trace := trace s @ (PageUrl page, RetStr u)
                   # (Log WARNING ''Possible ad redirect on'' site, Returned)
                   # R @ [(Sleep 2000, Returned)]\<rparr>)
          \<and> list_all closing R
          \<and> (\<exists>o1. (ContextClose cx, o1) \<in> set R) \<and> (\<exists>o2. (BrowserClose b, o2) \<in> set R)
     else after_submit w site q a page s
            = (Inr (if dummy_results site q \<noteq> [] then Break else Proceed),
               s\<lparr>result_var := dummy_results site q,
                 trace := trace s @ [(PageUrl page, RetStr u),
                   (Log WARNING ''Using DUMMY search results for'' site, Returned)]\<rparr>))"
proof -
  let ?u = "str_at w (length (trace s))"
  let ?s1 = "s\<lparr>trace := trace s @ [(PageUrl page, RetStr ?u),
                 (Log WARNING ''Possible ad redirect on'' site, Returned)]\<rparr>"
  show ?thesis
  proof (cases "\<not> str_in site ?u \<and> a < max_retries")
    case True
    from close_shape [of w b cx ?s1] obtain R
      where cl: "close_playwright_resources w (Some b) (Some cx) ?s1
                  = (Inr (), ?s1\<lparr>trace := trace ?s1 @ R\<rparr>)"
        and R: "list_all closing R" "\<exists>o1. (ContextClose cx, o1) \<in> set R"
          "\<exists>o2. (BrowserClose b, o2) \<in> set R"
      by blast
    have "after_submit w site q a page s
            = (Inr Continue, s\<lparr>browser_var := None, playwright_var := None,
                 trace := trace s @ (PageUrl page, RetStr ?u)
                   # (Log WARNING ''Possible ad redirect on'' site, Returned)
                   # R @ [(Sleep 2000, Returned)]\<rparr>)"
      using True assms cl
      by (simp add: after_submit_def looks_redirected_iff close_if_open_def bind_io_def read_url_def
            emit_def log_def gets_def modify_def sleep_def return_io_def)
    with True R show ?thesis by (intro exI [of _ ?u]) auto
  next
    case False
    have "after_submit w site q a page s
            = (Inr (if dummy_results site q \<noteq> [] then Break else Proceed),
               s\<lparr>result_var := dummy_results site q,
                 trace := trace s @ [(PageUrl page, RetStr ?u),
                   (Log WARNING ''Using DUMMY search results for'' site, Returned)]\<rparr>)"
      using False assms
      by (auto simp: after_submit_def looks_redirected_iff bind_io_def read_url_def
            emit_def log_def gets_def modify_def return_io_def)
    with False show ?thesis by (intro exI [of _ ?u]) auto
  qed
qed

lemma acq_event_front: "list_all acq_event P \<Longrightarrow> list_all front_event P"
  by (auto simp: list_all_iff front_event_def)

lemma interaction_front: "list_all interaction M \<Longrightarrow> list_all front_event M"
  by (auto simp: list_all_iff front_event_def)

lemma acq_no_goto: "list_all acq_event P \<Longrightarrow> filter is_goto P = []"
proof -
  have "acq_event ev \<Longrightarrow> \<not> is_goto ev" for ev
    by (cases ev rule: acq_event.cases) simp_all
  then show "list_all acq_event P \<Longrightarrow> filter is_goto P = []"
    by (auto simp: list_all_iff filter_empty_conv)
qed

lemma interaction_no_goto: "list_all interaction M \<Longrightarrow> filter is_goto M = []"
proof -
  have "interaction ev \<Longrightarrow> \<not> is_goto ev" for ev
    by (cases ev rule: interaction.cases) simp_all
  then show "list_all interaction M \<Longrightarrow> filter is_goto M = []"
    by (auto simp: list_all_iff filter_empty_conv)
qed

lemma interaction_no_launch: "list_all interaction M \<Longrightarrow> filter is_launch M = []"
proof -
  have "interaction ev \<Longrightarrow> \<not> is_launch ev" for ev
    by (cases ev rule: interaction.cases) simp_all
  then show "list_all interaction M \<Longrightarrow> filter is_launch M = []"
    by (auto simp: list_all_iff filter_empty_conv)
qed

lemma search_except_run:
  "\<exists>m. m \<in> set failure_messages
     \<and> search_except site e s = (Inr Proceed, s\<lparr>trace := trace s @ [(Log ERROR m site, Returned)]\<rparr>)"
proof (cases e)
  case PlaywrightTimeoutError
  then show ?thesis
    by (intro exI [of _ "''Timeout during search on''"])
       (simp add: search_except_def bind_io_def log_def emit_def return_io_def failure_messages_def)
next
  case OtherException
  then show ?thesis
    by (intro exI [of _ "''Generic error searching on''"])
       (simp add: search_except_def bind_io_def log_def emit_def return_io_def failure_messages_def)
qed

lemma leads_middle:
  "leads interaction
     (bind_io (call_unit w (WaitForTimeout page 3000)) (\<lambda>_.
      bind_io (fill_search_bar w page site q) (\<lambda>_.
      bind_io (submit_search w page site) (\<lambda>_.
      bind_io (call_unit w (WaitForLoadState page)) (\<lambda>_.
      bind_io (call_unit w (WaitForTimeout page 5000)) (\<lambda>_.
      k))))))
     k"
  by (intro leads_bind leads_refl only_call_unit only_fill_search_bar only_submit_search)
     simp_all

lemma attempt_trace_failed:
  assumes "list_all front_event F" "length (filter is_goto F) \<le> 1"
    "length (filter is_launch F) \<le> 1" "m \<in> set failure_messages"
  shows "attempt_trace site a Proceed ((PwStart, out) # F @ [(Log ERROR m site, Returned)])"
  unfolding attempt_trace_def using assms
  by (intro exI [of _ out] exI [of _ F]) simp

lemma attempt_trace_redirect:
  assumes "list_all front_event F" "length (filter is_goto F) \<le> 1"
    "length (filter is_launch F) \<le> 1"
    and "a < max_retries" "\<not> str_in site u" "list_all closing R"
    "\<exists>o1. (ContextClose cx, o1) \<in> set R" "\<exists>o2. (BrowserClose b, o2) \<in> set R"
    "(Launch pw, RetHandle b) \<in> set F" "(NewContext b, RetHandle cx) \<in> set F"
  shows "attempt_trace site a Continue
     ((PwStart, out) # F @ (PageUrl p, RetStr u)
        # (Log WARNING ''Possible ad redirect on'' site, Returned) # R @ [(Sleep 2000, Returned)])"
proof -
  have "\<exists>p' u' R' pw' b' cx'.
      (PwStart, out) # F @ (PageUrl p, RetStr u)
        # (Log WARNING ''Possible ad redirect on'' site, Returned) # R @ [(Sleep 2000, Returned)]
      = (PwStart, out) # F @ (PageUrl p', RetStr u')
        # (Log WARNING ''Possible ad redirect on'' site, Returned) # R' @ [(Sleep 2000, Returned)]
      \<and> \<not> str_in site u' \<and> list_all closing R'
      \<and> (\<exists>o1. (ContextClose cx', o1) \<in> set R') \<and> (\<exists>o2. (BrowserClose b', o2) \<in> set R')
      \<and> (Launch pw', RetHandle b') \<in> set F \<and> (NewContext b', RetHandle cx') \<in> set F"
    using assms(5-10)
    by (intro exI [of _ p] exI [of _ u] exI [of _ R] exI [of _ pw] exI [of _ b] exI [of _ cx]) simp
  with assms(1-4) show ?thesis unfolding attempt_trace_def
    by (intro exI [of _ out] exI [of _ F]) (simp only: simp_thms)
qed

lemma attempt_trace_scrape:
  assumes "list_all front_event F" "length (filter is_goto F) \<le> 1"
    "length (filter is_launch F) \<le> 1"
    and "c \<noteq> Continue" "str_in site u \<or> \<not> a < max_retries"
  shows "attempt_trace site a c
     ((PwStart, out) # F @ [(PageUrl p, RetStr u),
        (Log WARNING ''Using DUMMY search results for'' site, Returned)])"
  unfolding attempt_trace_def using assms
  by (intro exI [of _ out] exI [of _ F]) simp

lemma attempt_spec:
  fixes s :: "search_result list frame"
  assumes "playwright_var s = None" and "browser_var s = None" and "result_var s = []"
  shows "\<exists>c s1 A. try_except (search_try w site q a) (search_except site) s = (Inr c, s1)
     \<and> trace s1 = trace s @ A \<and> attempt_trace site a c A
     \<and> (playwright_var s1 = None \<or> browser_var s1 \<noteq> None)
     \<and> (browser_var s1 \<noteq> None \<longrightarrow> context_var s1 \<noteq> None)
     \<and> (c = Continue \<longrightarrow> playwright_var s1 = None \<and> browser_var s1 = None)
     \<and> result_var s1 = (if c = Break then dummy_results site q else [])
     \<and> (c = Break \<longrightarrow> dummy_results site q \<noteq> [])"
proof -
  let ?block = "search_try w site q a"
  let ?att = "try_except ?block (search_except site)"
  text \<open>An attempt that raised after the events \<open>F\<close>.\<close>
  have failed: ?thesis
    if run: "?block s = (Inl e, s1)" and tr: "trace s1 = trace s @ (PwStart, out) # F"
      and F: "list_all front_event F" "length (filter is_goto F) \<le> 1"
        "length (filter is_launch F) \<le> 1"
      and vars: "playwright_var s1 = None \<or> browser_var s1 \<noteq> None"
        "browser_var s1 \<noteq> None \<longrightarrow> context_var s1 \<noteq> None" "result_var s1 = []"
    for e s1 out F
  proof -
    from search_except_run [of site e s1] obtain m where m: "m \<in> set failure_messages"
      and h: "search_except site e s1
               = (Inr Proceed, s1\<lparr>trace := trace s1 @ [(Log ERROR m site, Returned)]\<rparr>)"
      by blast
    let ?s2 = "s1\<lparr>trace := trace s1 @ [(Log ERROR m site, Returned)]\<rparr>"
    have "?att s = (Inr Proceed, ?s2)" using run h by (simp add: try_except_def)
    moreover have "trace ?s2 = trace s @ ((PwStart, out) # F @ [(Log ERROR m site, Returned)])"
      using tr by simp
    moreover have "attempt_trace site a Proceed ((PwStart, out) # F @ [(Log ERROR m site, Returned)])"
      using F m by (rule attempt_trace_failed)
    ultimately show ?thesis using vars
      by (intro exI [of _ Proceed] exI [of _ ?s2]
            exI [of _ "(PwStart, out) # F @ [(Log ERROR m site, Returned)]"]) simp
  qed
  from acquire_shape [of w s] obtain out P'
    where P': "list_all acq_event P'" "length (filter is_launch P') \<le> 1"
      and alt: "(\<exists>e. acquire w None s = (Inl e, s\<lparr>trace := trace s @ (PwStart, out) # P'\<rparr>))
      \<or> (\<exists>pw b c p. acquire w None s
            = (Inr (c, p), s\<lparr>playwright_var := Some pw, browser_var := Some b,
                              context_var := Some c, trace := trace s @ (PwStart, out) # P'\<rparr>)
          \<and> (Launch pw, RetHandle b) \<in> set P' \<and> (NewContext b, RetHandle c) \<in> set P')"
    by blast
  note gP = acq_no_goto [OF P'(1)] and fP = acq_event_front [OF P'(1)]
  from alt show ?thesis
  proof (elim disjE exE conjE)
    fix e
    assume a: "acquire w None s = (Inl e, s\<lparr>trace := trace s @ (PwStart, out) # P'\<rparr>)"
    have "?block s = (Inl e, s\<lparr>trace := trace s @ (PwStart, out) # P'\<rparr>)"
      using a assms(1) by (simp add: search_try_def bind_io_def gets_def)
    then show ?thesis
      by (rule failed) (use assms fP gP P' in simp_all)
  next
    fix pw b cx p
    assume a: "acquire w None s
            = (Inr (cx, p), s\<lparr>playwright_var := Some pw, browser_var := Some b,
                              context_var := Some cx, trace := trace s @ (PwStart, out) # P'\<rparr>)"
      and mem: "(Launch pw, RetHandle b) \<in> set P'" "(NewContext b, RetHandle cx) \<in> set P'"
    let ?s1 = "s\<lparr>playwright_var := Some pw, browser_var := Some b,
                 context_var := Some cx, trace := trace s @ (PwStart, out) # P'\<rparr>"
    let ?mid = "\<lambda>k. bind_io (call_unit w (WaitForTimeout p 3000)) (\<lambda>_.
      bind_io (fill_search_bar w p site q) (\<lambda>_.
      bind_io (submit_search w p site) (\<lambda>_.
      bind_io (call_unit w (WaitForLoadState p)) (\<lambda>_.
      bind_io (call_unit w (WaitForTimeout p 5000)) (\<lambda>_.
      k)))))"
    let ?k = "after_submit w site q a p"
    have step1: "?block s = bind_io (call_unit w (Goto p site)) (\<lambda>_. ?mid ?k) ?s1"
      using a assms(1) by (simp add: search_try_def bind_io_def gets_def)
    show ?thesis
    proof (rule call_unit_cases [of w "Goto p site" ?s1])
      fix e
      let ?s2 = "?s1\<lparr>trace := trace ?s1 @ [(Goto p site, Raised e)]\<rparr>"
      assume g: "call_unit w (Goto p site) ?s1 = (Inl e, ?s2)"
      have "?block s = (Inl e, ?s2)"
        unfolding step1 using g by (simp add: bind_io_def)
      then show ?thesis
        by (rule failed [where F = "P' @ [(Goto p site, Raised e)]"])
           (use assms fP gP P' in \<open>simp_all add: front_event_def\<close>)
    next
      let ?s2 = "?s1\<lparr>trace := trace ?s1 @ [(Goto p site, Returned)]\<rparr>"
      assume g: "call_unit w (Goto p site) ?s1 = (Inr (), ?s2)"
      have step2: "?block s = ?mid ?k ?s2"
        unfolding step1 using g by (simp add: bind_io_def)
      from leads_middle [of w p site q ?k] obtain M where M: "list_all interaction M"
        and alt2: "(\<exists>e. ?mid ?k ?s2 = (Inl e, ?s2\<lparr>trace := trace ?s2 @ M\<rparr>))
           \<or> ?mid ?k ?s2 = ?k (?s2\<lparr>trace := trace ?s2 @ M\<rparr>)"
        unfolding leads_def by blast
      let ?F = "P' @ (Goto p site, Returned) # M"
      let ?s3 = "?s2\<lparr>trace := trace ?s2 @ M\<rparr>"
      have F: "list_all front_event ?F" "length (filter is_goto ?F) \<le> 1"
        "length (filter is_launch ?F) \<le> 1"
        using fP gP P' interaction_front [OF M] interaction_no_goto [OF M]
          interaction_no_launch [OF M]
        by (simp_all add: front_event_def)
      have tr3: "trace ?s3 = trace s @ (PwStart, out) # ?F" by simp
      from alt2 show ?thesis
      proof (elim disjE exE)
        fix e
        assume "?mid ?k ?s2 = (Inl e, ?s3)"
        then have "?block s = (Inl e, ?s3)" unfolding step2 .
        then show ?thesis
          by (rule failed [where F = ?F]) (use assms F in simp_all)
      next
        assume "?mid ?k ?s2 = ?k ?s3"
        then have step3: "?block s = ?k ?s3" unfolding step2 .
        have v3: "browser_var ?s3 = Some b" "context_var ?s3 = Some cx" "result_var ?s3 = []"
          using assms by simp_all
        from after_submit_spec [OF v3, of site a w q p] obtain u where u:
          "if \<not> str_in site u \<and> a < max_retries
           then \<exists>R. ?k ?s3
              = (Inr Continue, ?s3\<lparr>browser_var := None, playwright_var := None,
                 trace := trace ?s3 @ (PageUrl p, RetStr u)
                   # (Log WARNING ''Possible ad redirect on'' site, Returned)
                   # R @ [(Sleep 2000, Returned)]\<rparr>)
              \<and> list_all closing R
              \<and> (\<exists>o1. (ContextClose cx, o1) \<in> set R) \<and> (\<exists>o2. (BrowserClose b, o2) \<in> set R)
           else ?k ?s3
              = (Inr (if dummy_results site q \<noteq> [] then Break else Proceed),
                 ?s3\<lparr>result_var := dummy_results site q,
                   trace := trace ?s3 @ [(PageUrl p, RetStr u),
                     (Log WARNING ''Using DUMMY search results for'' site, Returned)]\<rparr>)"
          by blast
        show ?thesis
        proof (cases "\<not> str_in site u \<and> a < max_retries")
          case True
          with u obtain R where
            k: "?k ?s3 = (Inr Continue, ?s3\<lparr>browser_var := None, playwright_var := None,
                 trace := trace ?s3 @ (PageUrl p, RetStr u)
                   # (Log WARNING ''Possible ad redirect on'' site, Returned)
                   # R @ [(Sleep 2000, Returned)]\<rparr>)"
            and R: "list_all closing R" "\<exists>o1. (ContextClose cx, o1) \<in> set R"
              "\<exists>o2. (BrowserClose b, o2) \<in> set R"
            by auto
          let ?A = "(PwStart, out) # ?F @ (PageUrl p, RetStr u)
                   # (Log WARNING ''Possible ad redirect on'' site, Returned)
                   # R @ [(Sleep 2000, Returned)]"
          let ?s4 = "?s3\<lparr>browser_var := None, playwright_var := None,
                 trace := trace ?s3 @ (PageUrl p, RetStr u)
                   # (Log WARNING ''Possible ad redirect on'' site, Returned)
                   # R @ [(Sleep 2000, Returned)]\<rparr>"
          have "?att s = (Inr Continue, ?s4)"
            using step3 k by (simp add: try_except_def)
          moreover have "trace ?s4 = trace s @ ?A" by simp
          moreover have "attempt_trace site a Continue ?A"
            by (rule attempt_trace_redirect [where pw = pw and b = b and cx = cx])
               (use True R mem F in simp_all)
          moreover have "result_var ?s4 = []" using assms by simp
          ultimately show ?thesis
            by (intro exI [of _ Continue] exI [of _ ?s4] exI [of _ ?A]) simp
        next
          case False
          let ?c = "if dummy_results site q \<noteq> [] then Break else Proceed"
          let ?A = "(PwStart, out) # ?F @ [(PageUrl p, RetStr u),
                     (Log WARNING ''Using DUMMY search results for'' site, Returned)]"
          let ?s4 = "?s3\<lparr>result_var := dummy_results site q,
                   trace := trace ?s3 @ [(PageUrl p, RetStr u),
                     (Log WARNING ''Using DUMMY search results for'' site, Returned)]\<rparr>"
          from False u have k: "?k ?s3 = (Inr ?c, ?s4)" by auto
          have "?att s = (Inr ?c, ?s4)"
            using step3 k by (simp add: try_except_def)
          moreover have "trace ?s4 = trace s @ ?A" by simp
          moreover have "attempt_trace site a ?c ?A"
            by (rule attempt_trace_scrape) (use False F in simp_all)
          ultimately show ?thesis
            by (intro exI [of _ ?c] exI [of _ ?s4] exI [of _ ?A]) simp
        qed
      qed
    qed
  qed
qed

subsection \<open>The two attempts\<close>

lemma close_if_open_spec:
  assumes "browser_var s \<noteq> None \<longrightarrow> context_var s \<noteq> None"
  shows "\<exists>R. close_if_open w s = (Inr (), s\<lparr>trace := trace s @ R\<rparr>) \<and> list_all closing R"
proof (cases "browser_var s")
  case None
  then have "close_if_open w s = (Inr (), s\<lparr>trace := trace s @ []\<rparr>)"
    by (simp add: close_if_open_def io_defs)
  then show ?thesis by (intro exI [of _ "[]"]) simp
next
  case (Some b)
  with assms obtain c where c: "context_var s = Some c" by auto
  from close_spec [of w b c s] obtain R
    where "close_playwright_resources w (Some b) (Some c) s = (Inr (), s\<lparr>trace := trace s @ R\<rparr>)"
      "list_all closing R" by blast
  with Some c have "close_if_open w s = (Inr (), s\<lparr>trace := trace s @ R\<rparr>)" "list_all closing R"
    by (auto simp: close_if_open_def bind_io_def gets_def return_io_def)
  then show ?thesis by blast
qed

lemma attempts_upt: "[0..<max_retries + 1] = [0, 1]"
  by (simp add: max_retries_def upt_rec)

lemma last_attempt:
  fixes s :: "search_result list frame"
  assumes "playwright_var s = None" and "browser_var s = None" and "result_var s = []"
  shows "\<exists>c s1 A. search_loop w site q [1] s = (Inr (), s1)
     \<and> trace s1 = trace s @ A \<and> attempt_trace site 1 c A
     \<and> (playwright_var s1 = None \<or> browser_var s1 \<noteq> None)
     \<and> (browser_var s1 \<noteq> None \<longrightarrow> context_var s1 \<noteq> None)
     \<and> result_var s1 = (if c = Break then dummy_results site q else [])
     \<and> (c = Break \<longrightarrow> dummy_results site q \<noteq> [])"
proof -
  from attempt_spec [OF assms, of w site q 1]
  obtain c s1 A where att: "try_except (search_try w site q 1) (search_except site) s = (Inr c, s1)"
    and rest: "trace s1 = trace s @ A" "attempt_trace site 1 c A"
      "playwright_var s1 = None \<or> browser_var s1 \<noteq> None"
      "browser_var s1 \<noteq> None \<longrightarrow> context_var s1 \<noteq> None"
      "result_var s1 = (if c = Break then dummy_results site q else [])"
      "c = Break \<longrightarrow> dummy_results site q \<noteq> []"
    by blast
  have "search_loop w site q [1] s = (Inr (), s1)"
    using att by (cases c) (simp_all add: bind_io_def return_io_def gets_def max_retries_def)
  with rest show ?thesis by blast
qed

lemma search_shape:
  fixes w :: world and site q :: string
  defines "run \<equiv> search_movie_on_site w site q"
  shows "\<exists>c1 A1 G c2 A2 R res. fst run = Inr res
     \<and> trace (snd run) = (Log INFO ''Searching on'' site, Returned) # A1 @ G @ A2 @ R
                          @ [(Log INFO ''Found results on'' site, Returned)]
     \<and> attempt_trace site 0 c1 A1 \<and> list_all closing R
     \<and> ((c1 = Break \<and> G = [] \<and> A2 = [] \<and> res = dummy_results site q \<and> res \<noteq> [])
        \<or> (c1 \<noteq> Break
           \<and> (c1 = Continue \<longrightarrow> G = [])
           \<and> (c1 = Proceed \<longrightarrow> (\<exists>R0. G = (Log INFO ''Retrying search on'' site, Returned) # R0
                                          @ [(Sleep 3000, Returned)] \<and> list_all closing R0))
           \<and> attempt_trace site 1 c2 A2
           \<and> res = (if c2 = Break then dummy_results site q else [])
           \<and> (c2 = Break \<longrightarrow> dummy_results site q \<noteq> [])))"
proof -
  let ?L0 = "(Log INFO ''Searching on'' site, Returned)"
  let ?Le = "(Log INFO ''Found results on'' site, Returned)"
  let ?Lr = "(Log INFO ''Retrying search on'' site, Returned)"
  define s0 :: "search_result list frame" where "s0 = (entry [])\<lparr>trace := [?L0]\<rparr>"
  have s0: "playwright_var s0 = None" "browser_var s0 = None" "result_var s0 = []"
    "trace s0 = [?L0]"
    by (simp_all add: s0_def entry_def)
  define fin :: "(search_result list, search_result list) io" where
    "fin = bind_io (release w) (\<lambda>_. bind_io (log INFO ''Found results on'' site) (\<lambda>_.
             gets result_var))"
  have run: "run = bind_io (search_loop w site q [0, 1]) (\<lambda>_. fin) s0"
    unfolding run_def search_movie_on_site_def attempts_upt fin_def s0_def
    by (simp add: bind_io_def log_def emit_def entry_def)
  text \<open>The end of the operation, from a frame the loop may leave.\<close>
  have finish: "\<exists>R. list_all closing R
      \<and> fin s = (Inr (result_var s), s\<lparr>trace := trace s @ R @ [?Le]\<rparr>)"
    if "playwright_var s = None \<or> browser_var s \<noteq> None"
      "browser_var s \<noteq> None \<longrightarrow> context_var s \<noteq> None"
    for s :: "search_result list frame"
  proof -
    from release_spec [OF that, of w] obtain R
      where "release w s = (Inr (), s\<lparr>trace := trace s @ R\<rparr>)" and R: "list_all closing R"
      by blast
    then have "fin s = (Inr (result_var s), s\<lparr>trace := trace s @ R @ [?Le]\<rparr>)"
      by (simp add: fin_def bind_io_def log_def emit_def gets_def)
    with R show ?thesis by blast
  qed
  from attempt_spec [OF s0(1-3), of w site q 0]
  obtain c1 s1 A1
    where att: "try_except (search_try w site q 0) (search_except site) s0 = (Inr c1, s1)"
      and a1: "trace s1 = trace s0 @ A1" "attempt_trace site 0 c1 A1"
      and v1: "playwright_var s1 = None \<or> browser_var s1 \<noteq> None"
        "browser_var s1 \<noteq> None \<longrightarrow> context_var s1 \<noteq> None"
        "c1 = Continue \<longrightarrow> playwright_var s1 = None \<and> browser_var s1 = None"
      and r1: "result_var s1 = (if c1 = Break then dummy_results site q else [])"
        "c1 = Break \<longrightarrow> dummy_results site q \<noteq> []"
    by blast
  show ?thesis
  proof (cases c1)
    case Break
    have loop: "search_loop w site q [0, 1] s0 = (Inr (), s1)"
      using att Break by (simp add: bind_io_def return_io_def)
    from finish [OF v1(1,2)] obtain R where R: "list_all closing R"
      and f: "fin s1 = (Inr (result_var s1), s1\<lparr>trace := trace s1 @ R @ [?Le]\<rparr>)"
      by blast
    have "run = (Inr (result_var s1), s1\<lparr>trace := trace s1 @ R @ [?Le]\<rparr>)"
      unfolding run using loop f by (simp add: bind_io_def)
    then have "fst run = Inr (dummy_results site q)"
      "trace (snd run) = ?L0 # A1 @ [] @ [] @ R @ [?Le]"
      using a1 s0 r1 Break by simp_all
    with a1 R r1 Break show ?thesis by blast
  next
    case Continue
    with v1 r1 have v: "playwright_var s1 = None" "browser_var s1 = None" "result_var s1 = []"
      by simp_all
    from last_attempt [OF v, of w site q]
    obtain c2 s2 A2 where l2: "search_loop w site q [1] s1 = (Inr (), s2)"
      and a2: "trace s2 = trace s1 @ A2" "attempt_trace site 1 c2 A2"
      and v2: "playwright_var s2 = None \<or> browser_var s2 \<noteq> None"
        "browser_var s2 \<noteq> None \<longrightarrow> context_var s2 \<noteq> None"
      and r2: "result_var s2 = (if c2 = Break then dummy_results site q else [])"
        "c2 = Break \<longrightarrow> dummy_results site q \<noteq> []"
      by blast
    have loop: "search_loop w site q [0, 1] s0 = (Inr (), s2)"
      using att Continue l2 by (simp add: bind_io_def)
    from finish [OF v2] obtain R where R: "list_all closing R"
      and f: "fin s2 = (Inr (result_var s2), s2\<lparr>trace := trace s2 @ R @ [?Le]\<rparr>)"
      by blast
    have "run = (Inr (result_var s2), s2\<lparr>trace := trace s2 @ R @ [?Le]\<rparr>)"
      unfolding run using loop f by (simp add: bind_io_def)
    then have "fst run = Inr (if c2 = Break then dummy_results site q else [])"
      "trace (snd run) = ?L0 # A1 @ [] @ A2 @ R @ [?Le]"
      using a1 a2 s0 r2 by simp_all
    with a1 a2 R r2 Continue show ?thesis by blast
  next
    case Proceed
    with r1 have res1: "result_var s1 = []" by simp
    let ?s1' = "s1\<lparr>trace := trace s1 @ [?Lr]\<rparr>"
    have "browser_var ?s1' \<noteq> None \<longrightarrow> context_var ?s1' \<noteq> None" using v1 by simp
    from close_if_open_spec [OF this, of w] obtain R0
      where cl: "close_if_open w ?s1' = (Inr (), ?s1'\<lparr>trace := trace ?s1' @ R0\<rparr>)"
        and R0: "list_all closing R0"
      by blast
    let ?s1'' = "s1\<lparr>browser_var := None, playwright_var := None,
                   trace := trace s1 @ ?Lr # R0 @ [(Sleep 3000, Returned)]\<rparr>"
    have v: "playwright_var ?s1'' = None" "browser_var ?s1'' = None" "result_var ?s1'' = []"
      using res1 by simp_all
    from last_attempt [OF v, of w site q]
    obtain c2 s2 A2 where l2: "search_loop w site q [1] ?s1'' = (Inr (), s2)"
      and a2: "trace s2 = trace ?s1'' @ A2" "attempt_trace site 1 c2 A2"
      and v2: "playwright_var s2 = None \<or> browser_var s2 \<noteq> None"
        "browser_var s2 \<noteq> None \<longrightarrow> context_var s2 \<noteq> None"
      and r2: "result_var s2 = (if c2 = Break then dummy_results site q else [])"
        "c2 = Break \<longrightarrow> dummy_results site q \<noteq> []"
      by blast
    have loop: "search_loop w site q [0, 1] s0 = (Inr (), s2)"
      using att Proceed res1 cl l2
      by (simp add: bind_io_def gets_def log_def emit_def modify_def sleep_def max_retries_def)
    from finish [OF v2] obtain R where R: "list_all closing R"
      and f: "fin s2 = (Inr (result_var s2), s2\<lparr>trace := trace s2 @ R @ [?Le]\<rparr>)"
      by blast
    have "run = (Inr (result_var s2), s2\<lparr>trace := trace s2 @ R @ [?Le]\<rparr>)"
      unfolding run using loop f by (simp add: bind_io_def)
    then have "fst run = Inr (if c2 = Break then dummy_results site q else [])"
      "trace (snd run) = ?L0 # A1 @ (?Lr # R0 @ [(Sleep 3000, Returned)]) @ A2 @ R @ [?Le]"
      using a1 a2 s0 r2 by simp_all
    with a1 a2 R R0 r2 Proceed show ?thesis by blast
  qed
qed

subsection \<open>Counting attempts\<close>

lemma front_event_cases:
  assumes "front_event ev"
  shows "\<not> is_start ev" "\<not> attempt_failed ev" "\<not> is_url_read ev"
proof -
  have a: "\<not> is_start ev \<and> \<not> attempt_failed ev \<and> \<not> is_url_read ev" if "acq_event ev"
    using that by (cases ev rule: acq_event.cases) simp_all
  have g: "\<not> is_start ev \<and> \<not> attempt_failed ev \<and> \<not> is_url_read ev" if "is_goto ev"
    using that by (cases ev rule: is_goto.cases) simp_all
  have i: "\<not> is_start ev \<and> \<not> attempt_failed ev \<and> \<not> is_url_read ev" if "interaction ev"
    using that by (cases ev rule: interaction.cases)
      (auto simp: interaction_messages_def failure_messages_def)
  from assms a g i show "\<not> is_start ev" "\<not> attempt_failed ev" "\<not> is_url_read ev"
    unfolding front_event_def by blast+
qed

lemma closing_cases:
  assumes "closing ev"
  shows "\<not> is_start ev" "\<not> attempt_failed ev" "\<not> is_url_read ev" "\<not> is_goto ev"
    "\<not> is_launch ev"
  using assms by (cases ev rule: closing.cases; auto simp: failure_messages_def)+

lemma filter_none: "(\<And>ev. ev \<in> set xs \<Longrightarrow> \<not> K ev) \<Longrightarrow> filter K xs = []"
  by (simp add: filter_empty_conv)

lemma front_counts:
  assumes "list_all front_event F"
  shows "filter is_start F = []" "filter attempt_failed F = []" "filter is_url_read F = []"
  using assms by (auto simp: list_all_iff filter_empty_conv dest: front_event_cases)

lemma closing_counts:
  assumes "list_all closing R"
  shows "filter is_start R = []" "filter attempt_failed R = []" "filter is_url_read R = []"
    "filter is_goto R = []" "filter is_launch R = []"
  using assms by (auto simp: list_all_iff filter_empty_conv dest: closing_cases)

lemma attempt_counts:
  assumes "attempt_trace site a c A"
  shows "length (filter is_start A) = 1" "length (filter is_goto A) \<le> 1"
    "length (filter is_launch A) \<le> 1" "length (filter attempt_failed A) \<le> 1"
    "c = Break \<Longrightarrow> filter attempt_failed A = []"
proof -
  from assms obtain out F where F: "list_all front_event F" "length (filter is_goto F) \<le> 1"
    "length (filter is_launch F) \<le> 1"
    and alt: "(c = Proceed \<and> (\<exists>m. m \<in> set failure_messages
             \<and> A = (PwStart, out) # F @ [(Log ERROR m site, Returned)]))
         \<or> (c = Continue \<and> a < max_retries \<and> (\<exists>p u R pw b cx.
               A = (PwStart, out) # F @ (PageUrl p, RetStr u)
                     # (Log WARNING ''Possible ad redirect on'' site, Returned)
                     # R @ [(Sleep 2000, Returned)]
               \<and> \<not> str_in site u \<and> list_all closing R
               \<and> (\<exists>o1. (ContextClose cx, o1) \<in> set R) \<and> (\<exists>o2. (BrowserClose b, o2) \<in> set R)
               \<and> (Launch pw, RetHandle b) \<in> set F \<and> (NewContext b, RetHandle cx) \<in> set F))
         \<or> (c \<noteq> Continue \<and> (\<exists>p u.
               A = (PwStart, out) # F @ [(PageUrl p, RetStr u),
                     (Log WARNING ''Using DUMMY search results for'' site, Returned)]
               \<and> (str_in site u \<or> \<not> a < max_retries)))"
    unfolding attempt_trace_def by blast
  note fc = front_counts [OF F(1)]
  from alt have "length (filter is_start A) = 1 \<and> length (filter is_goto A) \<le> 1
    \<and> length (filter is_launch A) \<le> 1 \<and> length (filter attempt_failed A) \<le> 1
    \<and> (c = Break \<longrightarrow> filter attempt_failed A = [])"
  proof (elim disjE)
    assume "c = Proceed \<and> (\<exists>m. m \<in> set failure_messages
             \<and> A = (PwStart, out) # F @ [(Log ERROR m site, Returned)])"
    then obtain m where "c = Proceed" "m \<in> set failure_messages"
      "A = (PwStart, out) # F @ [(Log ERROR m site, Returned)]"
      by blast
    with F fc show ?thesis by simp
  next
    assume "c = Continue \<and> a < max_retries \<and> (\<exists>p u R pw b cx.
               A = (PwStart, out) # F @ (PageUrl p, RetStr u)
                     # (Log WARNING ''Possible ad redirect on'' site, Returned)
                     # R @ [(Sleep 2000, Returned)]
               \<and> \<not> str_in site u \<and> list_all closing R
               \<and> (\<exists>o1. (ContextClose cx, o1) \<in> set R) \<and> (\<exists>o2. (BrowserClose b, o2) \<in> set R)
               \<and> (Launch pw, RetHandle b) \<in> set F \<and> (NewContext b, RetHandle cx) \<in> set F)"
    then obtain p u R where "c = Continue" "list_all closing R"
      "A = (PwStart, out) # F @ (PageUrl p, RetStr u)
                     # (Log WARNING ''Possible ad redirect on'' site, Returned)
                     # R @ [(Sleep 2000, Returned)]"
      by blast
    with F fc closing_counts [of R] show ?thesis by (simp add: failure_messages_def)
  next
    assume "c \<noteq> Continue \<and> (\<exists>p u.
               A = (PwStart, out) # F @ [(PageUrl p, RetStr u),
                     (Log WARNING ''Using DUMMY search results for'' site, Returned)]
               \<and> (str_in site u \<or> \<not> a < max_retries))"
    then obtain p u where "A = (PwStart, out) # F @ [(PageUrl p, RetStr u),
                     (Log WARNING ''Using DUMMY search results for'' site, Returned)]"
      by blast
    with F fc show ?thesis by (simp add: failure_messages_def)
  qed
  then show "length (filter is_start A) = 1" "length (filter is_goto A) \<le> 1"
    "length (filter is_launch A) \<le> 1" "length (filter attempt_failed A) \<le> 1"
    "c = Break \<Longrightarrow> filter attempt_failed A = []"
    by blast+
qed

text \<open>
  Claim C7. For every world, site and query, \<open>search_movie_on_site\<close> returns a list
  (the model is a total function and the result is never an exception), and its trace
  holds at most two starts of Playwright, two browser launches and two navigations:
  one attempt and \<open>max_retries = 1\<close> retry, and no attempt after that.
\<close>

theorem search_makes_at_most_two_attempts:
  fixes w :: world and site q :: string
  defines "run \<equiv> search_movie_on_site w site q"
  shows "(\<exists>res. fst run = Inr res)
     \<and> max_retries + 1 = 2
     \<and> length (filter is_start (trace (snd run))) \<le> 2
     \<and> length (filter is_launch (trace (snd run))) \<le> 2
     \<and> length (filter is_goto (trace (snd run))) \<le> 2"
proof -
  let ?L0 = "(Log INFO ''Searching on'' site, Returned)"
  let ?Le = "(Log INFO ''Found results on'' site, Returned)"
  from search_shape [of w site q]
  obtain c1 A1 G c2 A2 R res where res: "fst run = Inr res"
    and t: "trace (snd run) = ?L0 # A1 @ G @ A2 @ R @ [?Le]"
    and a1: "attempt_trace site 0 c1 A1" and R: "list_all closing R"
    and alt: "(c1 = Break \<and> G = [] \<and> A2 = [] \<and> res = dummy_results site q \<and> res \<noteq> [])
        \<or> (c1 \<noteq> Break
           \<and> (c1 = Continue \<longrightarrow> G = [])
           \<and> (c1 = Proceed \<longrightarrow> (\<exists>R0. G = (Log INFO ''Retrying search on'' site, Returned) # R0
                                          @ [(Sleep 3000, Returned)] \<and> list_all closing R0))
           \<and> attempt_trace site 1 c2 A2
           \<and> res = (if c2 = Break then dummy_results site q else [])
           \<and> (c2 = Break \<longrightarrow> dummy_results site q \<noteq> []))"
    unfolding run_def by blast
  note c1 = attempt_counts(1-3) [OF a1] and cR = closing_counts [OF R]
  have G: "filter is_start G = [] \<and> filter is_launch G = [] \<and> filter is_goto G = []"
    if "(c1 = Continue \<longrightarrow> G = [])"
      "(c1 = Proceed \<longrightarrow> (\<exists>R0. G = (Log INFO ''Retrying search on'' site, Returned) # R0
                                          @ [(Sleep 3000, Returned)] \<and> list_all closing R0))"
      "c1 \<noteq> Break"
  proof (cases c1)
    case Proceed
    with that obtain R0 where "G = (Log INFO ''Retrying search on'' site, Returned) # R0
                                          @ [(Sleep 3000, Returned)]" "list_all closing R0"
      by blast
    with closing_counts [of R0] show ?thesis by simp
  qed (use that in simp_all)
  from alt have "length (filter is_start (trace (snd run))) \<le> 2
     \<and> length (filter is_launch (trace (snd run))) \<le> 2
     \<and> length (filter is_goto (trace (snd run))) \<le> 2"
  proof (elim disjE conjE)
    assume "G = []" "A2 = []"
    with c1 cR show ?thesis unfolding t by simp
  next
    assume g: "c1 = Continue \<longrightarrow> G = []"
      "c1 = Proceed \<longrightarrow> (\<exists>R0. G = (Log INFO ''Retrying search on'' site, Returned) # R0
                                          @ [(Sleep 3000, Returned)] \<and> list_all closing R0)"
      "c1 \<noteq> Break" and a2: "attempt_trace site 1 c2 A2"
    from G [OF g] attempt_counts(1-3) [OF a2] c1 cR show ?thesis unfolding t by simp
  qed
  with res show ?thesis by (simp add: max_retries_def)
qed

subsection \<open>The redirect test\<close>

lemma takeWhile_hit: "list_all P xs \<Longrightarrow> \<not> P y \<Longrightarrow> takeWhile P (xs @ y # ys) = xs"
  by (induction xs) simp_all

lemma attempt_first_read:
  assumes "attempt_trace site a c A"
  shows "\<exists>out F T. A = (PwStart, out) # F @ T \<and> list_all front_event F
     \<and> (filter is_url_read T = [] \<or> (\<exists>p u T'. T = (PageUrl p, RetStr u) # T'))"
proof -
  from assms obtain out F where F: "list_all front_event F"
    and alt: "(c = Proceed \<and> (\<exists>m. m \<in> set failure_messages
             \<and> A = (PwStart, out) # F @ [(Log ERROR m site, Returned)]))
         \<or> (c = Continue \<and> a < max_retries \<and> (\<exists>p u R pw b cx.
               A = (PwStart, out) # F @ (PageUrl p, RetStr u)
                     # (Log WARNING ''Possible ad redirect on'' site, Returned)
                     # R @ [(Sleep 2000, Returned)]
               \<and> \<not> str_in site u \<and> list_all closing R
               \<and> (\<exists>o1. (ContextClose cx, o1) \<in> set R) \<and> (\<exists>o2. (BrowserClose b, o2) \<in> set R)
               \<and> (Launch pw, RetHandle b) \<in> set F \<and> (NewContext b, RetHandle cx) \<in> set F))
         \<or> (c \<noteq> Continue \<and> (\<exists>p u.
               A = (PwStart, out) # F @ [(PageUrl p, RetStr u),
                     (Log WARNING ''Using DUMMY search results for'' site, Returned)]
               \<and> (str_in site u \<or> \<not> a < max_retries)))"
    unfolding attempt_trace_def by blast
  from alt show ?thesis
  proof (elim disjE)
    assume "c = Proceed \<and> (\<exists>m. m \<in> set failure_messages
             \<and> A = (PwStart, out) # F @ [(Log ERROR m site, Returned)])"
    then obtain m where "A = (PwStart, out) # F @ [(Log ERROR m site, Returned)]" by blast
    with F show ?thesis
      by (intro exI [of _ out] exI [of _ F] exI [of _ "[(Log ERROR m site, Returned)]"]) simp
  next
    assume "c = Continue \<and> a < max_retries \<and> (\<exists>p u R pw b cx.
               A = (PwStart, out) # F @ (PageUrl p, RetStr u)
                     # (Log WARNING ''Possible ad redirect on'' site, Returned)
                     # R @ [(Sleep 2000, Returned)]
               \<and> \<not> str_in site u \<and> list_all closing R
               \<and> (\<exists>o1. (ContextClose cx, o1) \<in> set R) \<and> (\<exists>o2. (BrowserClose b, o2) \<in> set R)
               \<and> (Launch pw, RetHandle b) \<in> set F \<and> (NewContext b, RetHandle cx) \<in> set F)"
    then obtain p u R where "A = (PwStart, out) # F @ (PageUrl p, RetStr u)
                     # (Log WARNING ''Possible ad redirect on'' site, Returned)
                     # R @ [(Sleep 2000, Returned)]" by blast
    with F show ?thesis
      by (intro exI [of _ out] exI [of _ F] exI [of _ "(PageUrl p, RetStr u)
                     # (Log WARNING ''Possible ad redirect on'' site, Returned)
                     # R @ [(Sleep 2000, Returned)]"]) simp
  next
    assume "c \<noteq> Continue \<and> (\<exists>p u.
               A = (PwStart, out) # F @ [(PageUrl p, RetStr u),
                     (Log WARNING ''Using DUMMY search results for'' site, Returned)]
               \<and> (str_in site u \<or> \<not> a < max_retries))"
    then obtain p u where "A = (PwStart, out) # F @ [(PageUrl p, RetStr u),
                     (Log WARNING ''Using DUMMY search results for'' site, Returned)]" by blast
    with F show ?thesis
      by (intro exI [of _ out] exI [of _ F] exI [of _ "[(PageUrl p, RetStr u),
                     (Log WARNING ''Using DUMMY search results for'' site, Returned)]"]) simp
  qed
qed

text \<open>
  Claim C2 fails as stated: the test of the source is a substring test, not a comparison
  of origins. A page on a foreign origin whose URL contains the site URL is accepted: the
  first attempt goes on to the scrape and no retry is made.
\<close>

theorem foreign_origin_accepted_counterexample:
  "origin_spec ''https://ads.example/?u=https://dummy-movie-site-alpha.com''
      \<noteq> origin_spec ''https://dummy-movie-site-alpha.com''
   \<and> fst (search_movie_on_site
            (landing_on ''https://ads.example/?u=https://dummy-movie-site-alpha.com'')
            ''https://dummy-movie-site-alpha.com'' ''Inception'')
       = Inr (dummy_results ''https://dummy-movie-site-alpha.com'' ''Inception'')
   \<and> dummy_results ''https://dummy-movie-site-alpha.com'' ''Inception'' \<noteq> []
   \<and> length (filter is_start (trace (snd (search_movie_on_site
            (landing_on ''https://ads.example/?u=https://dummy-movie-site-alpha.com'')
            ''https://dummy-movie-site-alpha.com'' ''Inception'')))) = 1"
  by (simp add: search_defs io_defs session_defs world_defs upt_rec origin_spec_def)

text \<open>
  Claim C2, as amended. Take the first read of the page URL in a run, when it belongs to
  the first attempt (one start of Playwright precedes it). If the site URL does not occur
  in the URL that was read, the next events are the warning of a redirect, the close of
  the context and of the browser acquired in this attempt, a sleep of two seconds, and
  only then the start of the second attempt, which acquires a new session. If the site
  URL occurs in it, the attempt goes on to the scrape.
\<close>

theorem redirect_discards_session_and_retries:
  fixes w :: world and site q :: string
  defines "tr \<equiv> trace (snd (search_movie_on_site w site q))"
  assumes first: "dropWhile (\<lambda>ev. \<not> is_url_read ev) tr = (PageUrl p, RetStr u) # post"
    and att: "length (filter is_start (takeWhile (\<lambda>ev. \<not> is_url_read ev) tr)) = 1"
  shows "(\<not> str_in site u \<longrightarrow>
      (\<exists>R pw b cx out rest.
          post = (Log WARNING ''Possible ad redirect on'' site, Returned) # R
                  @ (Sleep 2000, Returned) # (PwStart, out) # rest
        \<and> list_all closing R
        \<and> (\<exists>o1. (ContextClose cx, o1) \<in> set R) \<and> (\<exists>o2. (BrowserClose b, o2) \<in> set R)
        \<and> (Launch pw, RetHandle b) \<in> set (takeWhile (\<lambda>ev. \<not> is_url_read ev) tr)
        \<and> (NewContext b, RetHandle cx) \<in> set (takeWhile (\<lambda>ev. \<not> is_url_read ev) tr)))
    \<and> (str_in site u \<longrightarrow>
      (\<exists>rest. post = (Log WARNING ''Using DUMMY search results for'' site, Returned) # rest))"
proof -
  let ?nr = "\<lambda>ev. \<not> is_url_read ev"
  let ?L0 = "(Log INFO ''Searching on'' site, Returned)"
  let ?Le = "(Log INFO ''Found results on'' site, Returned)"
  let ?Lr = "(Log INFO ''Retrying search on'' site, Returned)"
  from search_shape [of w site q]
  obtain c1 A1 G c2 A2 R' res
    where t: "tr = ?L0 # A1 @ G @ A2 @ R' @ [?Le]"
    and a1: "attempt_trace site 0 c1 A1" and R': "list_all closing R'"
    and alt: "(c1 = Break \<and> G = [] \<and> A2 = [] \<and> res = dummy_results site q \<and> res \<noteq> [])
        \<or> (c1 \<noteq> Break
           \<and> (c1 = Continue \<longrightarrow> G = [])
           \<and> (c1 = Proceed \<longrightarrow> (\<exists>R0. G = ?Lr # R0 @ [(Sleep 3000, Returned)] \<and> list_all closing R0))
           \<and> attempt_trace site 1 c2 A2
           \<and> res = (if c2 = Break then dummy_results site q else [])
           \<and> (c2 = Break \<longrightarrow> dummy_results site q \<noteq> []))"
    unfolding tr_def by blast
  note nR' = closing_counts(1,3) [OF R']
  have nrR': "list_all ?nr R'" "list_all (\<lambda>ev. \<not> is_start ev) R'"
    using R' by (auto simp: list_all_iff dest: closing_cases)
  from a1 obtain out F where F: "list_all front_event F"
    and forms: "(c1 = Proceed \<and> (\<exists>m. m \<in> set failure_messages
             \<and> A1 = (PwStart, out) # F @ [(Log ERROR m site, Returned)]))
         \<or> (c1 = Continue \<and> 0 < max_retries \<and> (\<exists>p u R pw b cx.
               A1 = (PwStart, out) # F @ (PageUrl p, RetStr u)
                     # (Log WARNING ''Possible ad redirect on'' site, Returned)
                     # R @ [(Sleep 2000, Returned)]
               \<and> \<not> str_in site u \<and> list_all closing R
               \<and> (\<exists>o1. (ContextClose cx, o1) \<in> set R) \<and> (\<exists>o2. (BrowserClose b, o2) \<in> set R)
               \<and> (Launch pw, RetHandle b) \<in> set F \<and> (NewContext b, RetHandle cx) \<in> set F))
         \<or> (c1 \<noteq> Continue \<and> (\<exists>p u.
               A1 = (PwStart, out) # F @ [(PageUrl p, RetStr u),
                     (Log WARNING ''Using DUMMY search results for'' site, Returned)]
               \<and> (str_in site u \<or> \<not> 0 < max_retries)))"
    unfolding attempt_trace_def by blast
  have nrF: "list_all ?nr F" and nsF: "filter is_start F = []"
    using F by (auto simp: list_all_iff filter_empty_conv dest: front_event_cases)
  let ?X = "?L0 # (PwStart, out) # F"
  have nrX: "list_all ?nr ?X" using nrF by simp
  from forms show ?thesis
  proof (elim disjE)
    text \<open>The first attempt raised: a read of the URL, if any, belongs to the second.\<close>
    assume "c1 = Proceed \<and> (\<exists>m. m \<in> set failure_messages
             \<and> A1 = (PwStart, out) # F @ [(Log ERROR m site, Returned)])"
    then obtain m where c1: "c1 = Proceed"
      and A1: "A1 = (PwStart, out) # F @ [(Log ERROR m site, Returned)]" by blast
    from alt c1 obtain R0 where G: "G = ?Lr # R0 @ [(Sleep 3000, Returned)]"
      and R0: "list_all closing R0" and a2: "attempt_trace site 1 c2 A2"
      by auto
    have nrR0: "list_all ?nr R0" using R0 by (auto simp: list_all_iff dest: closing_cases)
    from attempt_first_read [OF a2] obtain out2 F2 T
      where A2: "A2 = (PwStart, out2) # F2 @ T" and F2: "list_all front_event F2"
        and T: "filter is_url_read T = [] \<or> (\<exists>p u T'. T = (PageUrl p, RetStr u) # T')"
      by blast
    have nrF2: "list_all ?nr F2"
      using F2 by (auto simp: list_all_iff dest: front_event_cases)
    let ?Y = "?L0 # ((PwStart, out) # F @ [(Log ERROR m site, Returned)])
                @ (?Lr # R0 @ [(Sleep 3000, Returned)]) @ (PwStart, out2) # F2"
    have nrY: "list_all ?nr ?Y" using nrF nrR0 nrF2 by simp
    from T show ?thesis
    proof
      assume "filter is_url_read T = []"
      then have "list_all ?nr T" by (simp add: filter_empty_conv list_all_iff)
      then have "list_all ?nr tr"
        unfolding t A1 G A2 using nrF nrR0 nrF2 nrR' by simp
      then have "dropWhile ?nr tr = []" by (rule dropWhile_all)
      with first show ?thesis by simp
    next
      assume "\<exists>p u T'. T = (PageUrl p, RetStr u) # T'"
      then obtain p' u' T' where T': "T = (PageUrl p', RetStr u') # T'" by blast
      have t': "tr = ?Y @ (PageUrl p', RetStr u') # T' @ R' @ [?Le]"
        unfolding t A1 G A2 T' by simp
      have "takeWhile ?nr tr = ?Y"
        unfolding t' using nrY by (rule takeWhile_hit) simp
      then have "length (filter is_start (takeWhile ?nr tr)) = 2"
        using nsF closing_counts(1) [OF R0] front_counts(1) [OF F2] by simp
      with att show ?thesis by simp
    qed
  next
    text \<open>The first attempt handled a redirect.\<close>
    assume "c1 = Continue \<and> 0 < max_retries \<and> (\<exists>p u R pw b cx.
               A1 = (PwStart, out) # F @ (PageUrl p, RetStr u)
                     # (Log WARNING ''Possible ad redirect on'' site, Returned)
                     # R @ [(Sleep 2000, Returned)]
               \<and> \<not> str_in site u \<and> list_all closing R
               \<and> (\<exists>o1. (ContextClose cx, o1) \<in> set R) \<and> (\<exists>o2. (BrowserClose b, o2) \<in> set R)
               \<and> (Launch pw, RetHandle b) \<in> set F \<and> (NewContext b, RetHandle cx) \<in> set F)"
    then obtain p1 u1 R pw b cx where c1: "c1 = Continue"
      and A1: "A1 = (PwStart, out) # F @ (PageUrl p1, RetStr u1)
                     # (Log WARNING ''Possible ad redirect on'' site, Returned)
                     # R @ [(Sleep 2000, Returned)]"
      and u1: "\<not> str_in site u1" and R: "list_all closing R"
        "\<exists>o1. (ContextClose cx, o1) \<in> set R" "\<exists>o2. (BrowserClose b, o2) \<in> set R"
      and mem: "(Launch pw, RetHandle b) \<in> set F" "(NewContext b, RetHandle cx) \<in> set F"
      by blast
    from alt c1 have G: "G = []" and a2: "attempt_trace site 1 c2 A2" by auto
    from attempt_first_read [OF a2] obtain out2 A2' where A2: "A2 = (PwStart, out2) # A2'"
      by auto
    let ?tail = "(Log WARNING ''Possible ad redirect on'' site, Returned)
                     # R @ (Sleep 2000, Returned) # (PwStart, out2) # A2' @ R' @ [?Le]"
    have t': "tr = ?X @ (PageUrl p1, RetStr u1) # ?tail"
      unfolding t A1 G A2 by simp
    have d: "dropWhile ?nr tr = (PageUrl p1, RetStr u1) # ?tail"
      unfolding t' using nrX by (rule dropWhile_hit) simp
    have k: "takeWhile ?nr tr = ?X"
      unfolding t' using nrX by (rule takeWhile_hit) simp
    from d first have eq: "u = u1" "post = ?tail" by simp_all
    have "\<exists>R pw b cx out rest.
          post = (Log WARNING ''Possible ad redirect on'' site, Returned) # R
                  @ (Sleep 2000, Returned) # (PwStart, out) # rest
        \<and> list_all closing R
        \<and> (\<exists>o1. (ContextClose cx, o1) \<in> set R) \<and> (\<exists>o2. (BrowserClose b, o2) \<in> set R)
        \<and> (Launch pw, RetHandle b) \<in> set (takeWhile ?nr tr)
        \<and> (NewContext b, RetHandle cx) \<in> set (takeWhile ?nr tr)"
      unfolding k eq
      by (intro exI [of _ R] exI [of _ pw] exI [of _ b] exI [of _ cx] exI [of _ out2]
            exI [of _ "A2' @ R' @ [?Le]"]) (use R mem in simp)
    with eq u1 show ?thesis by simp
  next
    text \<open>The first attempt went on to the scrape.\<close>
    assume "c1 \<noteq> Continue \<and> (\<exists>p u.
               A1 = (PwStart, out) # F @ [(PageUrl p, RetStr u),
                     (Log WARNING ''Using DUMMY search results for'' site, Returned)]
               \<and> (str_in site u \<or> \<not> 0 < max_retries))"
    then obtain p1 u1 where c1: "c1 \<noteq> Continue"
      and A1: "A1 = (PwStart, out) # F @ [(PageUrl p1, RetStr u1),
                     (Log WARNING ''Using DUMMY search results for'' site, Returned)]"
      and u1: "str_in site u1"
      by (auto simp: max_retries_def)
    let ?tail = "(Log WARNING ''Using DUMMY search results for'' site, Returned)
                   # G @ A2 @ R' @ [?Le]"
    have t': "tr = ?X @ (PageUrl p1, RetStr u1) # ?tail"
      unfolding t A1 by simp
    have d: "dropWhile ?nr tr = (PageUrl p1, RetStr u1) # ?tail"
      unfolding t' using nrX by (rule dropWhile_hit) simp
    have k: "takeWhile ?nr tr = ?X"
      unfolding t' using nrX by (rule takeWhile_hit) simp
    from d first have eq: "u = u1" "post = ?tail" by simp_all
    from eq u1 show ?thesis by simp
  qed
qed

theorem redirect_discards_session_and_retries_witness:
  "\<not> str_in ''https://dummy-movie-site-alpha.com'' ''https://ads.example.net/landing''
   \<and> (\<exists>post R pw b cx out rest.
        dropWhile (\<lambda>ev. \<not> is_url_read ev)
          (trace (snd (search_movie_on_site redirected_once
             ''https://dummy-movie-site-alpha.com'' ''Inception'')))
          = (PageUrl 6, RetStr ''https://ads.example.net/landing'') # post
        \<and> post = (Log WARNING ''Possible ad redirect on'' ''https://dummy-movie-site-alpha.com'', Returned)
                  # R @ (Sleep 2000, Returned) # (PwStart, out) # rest
        \<and> list_all closing R
        \<and> (\<exists>o1. (ContextClose cx, o1) \<in> set R) \<and> (\<exists>o2. (BrowserClose b, o2) \<in> set R))
   \<and> fst (search_movie_on_site redirected_once
             ''https://dummy-movie-site-alpha.com'' ''Inception'')
      = Inr (dummy_results ''https://dummy-movie-site-alpha.com'' ''Inception'')"
proof -
  let ?site = "''https://dummy-movie-site-alpha.com''"
  let ?u = "''https://ads.example.net/landing''"
  let ?run = "search_movie_on_site redirected_once ?site ''Inception''"
  let ?nr = "\<lambda>ev. \<not> is_url_read ev"
  have red: "\<not> str_in ?site ?u" by simp
  have d: "dropWhile ?nr (trace (snd ?run))
      = (PageUrl 6, RetStr ?u) # tl (dropWhile ?nr (trace (snd ?run)))"
    by (simp add: search_defs io_defs session_defs quiet_def redirected_once_def upt_rec)
  have a: "length (filter is_start (takeWhile ?nr (trace (snd ?run)))) = 1"
    by (simp add: search_defs io_defs session_defs quiet_def redirected_once_def upt_rec)
  have r: "fst ?run = Inr (dummy_results ?site ''Inception'')"
    by (simp add: search_defs io_defs session_defs quiet_def redirected_once_def upt_rec)
  from redirect_discards_session_and_retries [OF d a] red
  obtain R pw b cx out rest where
    "tl (dropWhile ?nr (trace (snd ?run)))
       = (Log WARNING ''Possible ad redirect on'' ?site, Returned)
                  # R @ (Sleep 2000, Returned) # (PwStart, out) # rest"
    "list_all closing R" "\<exists>o1. (ContextClose cx, o1) \<in> set R" "\<exists>o2. (BrowserClose b, o2) \<in> set R"
    by blast
  with d have "\<exists>post R pw b cx out rest.
        dropWhile ?nr (trace (snd ?run)) = (PageUrl 6, RetStr ?u) # post
        \<and> post = (Log WARNING ''Possible ad redirect on'' ?site, Returned)
                  # R @ (Sleep 2000, Returned) # (PwStart, out) # rest
        \<and> list_all closing R
        \<and> (\<exists>o1. (ContextClose cx, o1) \<in> set R) \<and> (\<exists>o2. (BrowserClose b, o2) \<in> set R)"
    by blast
  with red r show ?thesis by blast
qed

section \<open>No operation raises\<close>















end
